theory Spec2Isabelle
  imports Main "HOL-Library.Word"
begin

unbundle bit_operations_syntax

section \<open>Machine types and faults\<close>

text \<open>
  The kernel is 32-bit x86 code: \<open>size_t\<close> and \<open>uint32_t\<close> are 32-bit words,
  \<open>uint16_t\<close> is a 16-bit word, \<open>uint8_t\<close> an 8-bit word. Plain \<open>char\<close> is the
  signed 8-bit type of the x86 C ABI: it is stored as an 8-bit word and read with
  \<open>sint\<close> or the signed comparisons wherever the source promotes it to \<open>int\<close>.

  The source has no error returns. What it can do wrong is touch memory outside an
  array; the model performs no such access and returns a fault instead, so that the
  absence of out-of-range accesses is the statement that an operation returns \<open>Inr\<close>.
\<close>

datatype fault =
    OutOfGrid nat   \<comment> \<open>a cell index outside the 80x25 video region\<close>
  | Overrun         \<comment> \<open>an index outside a fixed-size character array\<close>

subsection \<open>Character literals\<close>

text \<open>
  A character literal of the source as a byte, and a string literal as the list of its
  bytes (without the terminator).
\<close>

definition byte :: "char \<Rightarrow> 8 word" where
  "byte ch = of_nat (of_char ch)"

definition cstr :: "string \<Rightarrow> 8 word list" where
  "cstr str = map byte str"

definition VGA_WIDTH :: nat where
  "VGA_WIDTH = 80"

definition VGA_HEIGHT :: nat where
  "VGA_HEIGHT = 25"

datatype vga_color =
    BLACK | BLUE | GREEN | CYAN | RED | MAGENTA | BROWN | LIGHT_GREY
  | DARK_GREY | LIGHT_BLUE | LIGHT_GREEN | LIGHT_CYAN | LIGHT_RED | LIGHT_MAGENTA
  | YELLOW | WHITE

fun vga_color_value :: "vga_color \<Rightarrow> 32 word" where
  "vga_color_value BLACK = 0"
| "vga_color_value BLUE = 1"
| "vga_color_value GREEN = 2"
| "vga_color_value CYAN = 3"
| "vga_color_value RED = 4"
| "vga_color_value MAGENTA = 5"
| "vga_color_value BROWN = 6"
| "vga_color_value LIGHT_GREY = 7"
| "vga_color_value DARK_GREY = 8"
| "vga_color_value LIGHT_BLUE = 9"
| "vga_color_value LIGHT_GREEN = 10"
| "vga_color_value LIGHT_CYAN = 11"
| "vga_color_value LIGHT_RED = 12"
| "vga_color_value LIGHT_MAGENTA = 13"
| "vga_color_value YELLOW = 14"
| "vga_color_value WHITE = 15"

section \<open>VGA terminal driver\<close>

text \<open>
  The four globals of the driver. \<open>vga_buffer\<close> is the memory behind the pointer
  \<open>(uint16_t*)0xB8000\<close>, addressed by cell index.
\<close>

record terminal =
  vga_buffer :: "nat \<Rightarrow> 16 word"
  terminal_row :: "32 word"
  terminal_col :: "32 word"
  terminal_color :: "8 word"

text \<open>\<open>fg | bg << 4\<close>, computed in \<open>int\<close> and truncated to \<open>uint8_t\<close>.\<close>

definition make_color :: "vga_color \<Rightarrow> vga_color \<Rightarrow> 8 word" where
  "make_color fg bg = ucast (vga_color_value fg OR push_bit 4 (vga_color_value bg))"

text \<open>
  \<open>(uint16_t)c | (uint16_t)color << 8\<close>. The cast of the signed \<open>char\<close> extends its
  sign bit; the cast of the unsigned \<open>color\<close> does not.
\<close>

definition make_vgaentry :: "8 word \<Rightarrow> 8 word \<Rightarrow> 16 word" where
  "make_vgaentry c color = (scast c :: 16 word) OR push_bit 8 (ucast color :: 16 word)"

text \<open>
  \<open>vga_buffer[i] = v\<close> and \<open>vga_buffer[i]\<close>: the video region holds
  \<open>VGA_WIDTH * VGA_HEIGHT\<close> cells; an index beyond it is a fault.
\<close>

definition vga_store :: "nat \<Rightarrow> 16 word \<Rightarrow> terminal \<Rightarrow> fault + terminal" where
  "vga_store i v s =
     (if i < VGA_WIDTH * VGA_HEIGHT
      then Inr (s\<lparr>vga_buffer := (vga_buffer s)(i := v)\<rparr>)
      else Inl (OutOfGrid i))"

definition vga_load :: "nat \<Rightarrow> terminal \<Rightarrow> fault + 16 word" where
  "vga_load i s =
     (if i < VGA_WIDTH * VGA_HEIGHT then Inr (vga_buffer s i) else Inl (OutOfGrid i))"

text \<open>
  The loop counters \<open>x\<close> and \<open>y\<close> of the driver are \<open>size_t\<close> values that never
  exceed 80; they are natural numbers here.

  Inner loop of \<open>terminal_initialize\<close>: \<open>for (x = ...; x < VGA_WIDTH; x++)\<close>.
\<close>

function initialize_cols :: "nat \<Rightarrow> nat \<Rightarrow> terminal \<Rightarrow> fault + terminal" where
  "initialize_cols y x s =
     (if x < VGA_WIDTH then
        (case vga_store (y * VGA_WIDTH + x) (make_vgaentry 0x20 (terminal_color s)) s of
           Inl e \<Rightarrow> Inl e
         | Inr s' \<Rightarrow> initialize_cols y (x + 1) s')
      else Inr s)"
  by pat_completeness auto
termination
  by (relation "measure (\<lambda>(y, x, s). VGA_WIDTH - x)") auto

text \<open>Outer loop of \<open>terminal_initialize\<close>: \<open>for (y = ...; y < VGA_HEIGHT; y++)\<close>.\<close>

function initialize_rows :: "nat \<Rightarrow> terminal \<Rightarrow> fault + terminal" where
  "initialize_rows y s =
     (if y < VGA_HEIGHT then
        (case initialize_cols y 0 s of
           Inl e \<Rightarrow> Inl e
         | Inr s' \<Rightarrow> initialize_rows (y + 1) s')
      else Inr s)"
  by pat_completeness auto
termination
  by (relation "measure (\<lambda>(y, s). VGA_HEIGHT - y)") auto

definition terminal_initialize :: "terminal \<Rightarrow> fault + terminal" where
  "terminal_initialize s =
     initialize_rows 0
       (s\<lparr>terminal_row := 0, terminal_col := 0,
          terminal_color := make_color LIGHT_GREEN BLACK\<rparr>)"

definition terminal_setcolor :: "8 word \<Rightarrow> terminal \<Rightarrow> terminal" where
  "terminal_setcolor color s = s\<lparr>terminal_color := color\<rparr>"

text \<open>
  The scroll of \<open>terminal_putchar\<close>. Inner loop: cell \<open>(y, x)\<close> takes the value of
  cell \<open>(y + 1, x)\<close>, read from the buffer as it is at that moment.
\<close>

function scroll_cols :: "nat \<Rightarrow> nat \<Rightarrow> terminal \<Rightarrow> fault + terminal" where
  "scroll_cols y x s =
     (if x < VGA_WIDTH then
        (case vga_load ((y + 1) * VGA_WIDTH + x) s of
           Inl e \<Rightarrow> Inl e
         | Inr v \<Rightarrow>
             (case vga_store (y * VGA_WIDTH + x) v s of
                Inl e \<Rightarrow> Inl e
              | Inr s' \<Rightarrow> scroll_cols y (x + 1) s'))
      else Inr s)"
  by pat_completeness auto
termination
  by (relation "measure (\<lambda>(y, x, s). VGA_WIDTH - x)") auto

text \<open>Outer loop of the scroll: \<open>for (y = ...; y < VGA_HEIGHT - 1; y++)\<close>.\<close>

function scroll_rows :: "nat \<Rightarrow> terminal \<Rightarrow> fault + terminal" where
  "scroll_rows y s =
     (if y < VGA_HEIGHT - 1 then
        (case scroll_cols y 0 s of
           Inl e \<Rightarrow> Inl e
         | Inr s' \<Rightarrow> scroll_rows (y + 1) s')
      else Inr s)"
  by pat_completeness auto
termination
  by (relation "measure (\<lambda>(y, s). VGA_HEIGHT - 1 - y)") auto

text \<open>The loop that clears the last line.\<close>

function clear_last_line :: "nat \<Rightarrow> terminal \<Rightarrow> fault + terminal" where
  "clear_last_line x s =
     (if x < VGA_WIDTH then
        (case vga_store ((VGA_HEIGHT - 1) * VGA_WIDTH + x)
                (make_vgaentry 0x20 (terminal_color s)) s of
           Inl e \<Rightarrow> Inl e
         | Inr s' \<Rightarrow> clear_last_line (x + 1) s')
      else Inr s)"
  by pat_completeness auto
termination
  by (relation "measure (\<lambda>(x, s). VGA_WIDTH - x)") auto

text \<open>
  \<open>terminal_putchar\<close>. The cursor is \<open>size_t\<close>: \<open>++terminal_row == VGA_HEIGHT\<close> and the
  index \<open>terminal_row * VGA_WIDTH + terminal_col\<close> are computed modulo \<open>2^32\<close>.
\<close>

definition terminal_putchar :: "8 word \<Rightarrow> terminal \<Rightarrow> fault + terminal" where
  "terminal_putchar c s =
     (if c = 0x0A then
        (let s1 = s\<lparr>terminal_col := 0\<rparr>;
             s2 = s1\<lparr>terminal_row := terminal_row s1 + 1\<rparr>
         in if terminal_row s2 = of_nat VGA_HEIGHT then
              (case scroll_rows 0 s2 of
                 Inl e \<Rightarrow> Inl e
               | Inr s3 \<Rightarrow>
                   (case clear_last_line 0 s3 of
                      Inl e \<Rightarrow> Inl e
                    | Inr s4 \<Rightarrow> Inr (s4\<lparr>terminal_row := of_nat (VGA_HEIGHT - 1)\<rparr>)))
            else Inr s2)
      else
        (case vga_store (unat (terminal_row s * of_nat VGA_WIDTH + terminal_col s))
                (make_vgaentry c (terminal_color s)) s of
           Inl e \<Rightarrow> Inl e
         | Inr s1 \<Rightarrow>
             (let s2 = s1\<lparr>terminal_col := terminal_col s1 + 1\<rparr>
              in if terminal_col s2 = of_nat VGA_WIDTH then
                   (let s3 = s2\<lparr>terminal_col := 0\<rparr>;
                        s4 = s3\<lparr>terminal_row := terminal_row s3 + 1\<rparr>
                    in if terminal_row s4 = of_nat VGA_HEIGHT
                       then Inr (s4\<lparr>terminal_row := 0\<rparr>)
                       else Inr s4)
                 else Inr s2)))"

text \<open>
  \<open>terminal_writestring\<close>: a C string is the list of its bytes; the loop stops at the
  first zero byte, and the end of the list stands for the terminator.
\<close>

fun terminal_writestring :: "8 word list \<Rightarrow> terminal \<Rightarrow> fault + terminal" where
  "terminal_writestring [] s = Inr s"
| "terminal_writestring (c # str) s =
     (if c = 0 then Inr s
      else (case terminal_putchar c s of
              Inl e \<Rightarrow> Inl e
            | Inr s' \<Rightarrow> terminal_writestring str s'))"

text \<open>The digit table \<open>char hex[] = "0123456789ABCDEF"\<close> of \<open>terminal_writehex\<close>.\<close>

definition hex :: "8 word list" where
  "hex = [0x30, 0x31, 0x32, 0x33, 0x34, 0x35, 0x36, 0x37, 0x38, 0x39,
          0x41, 0x42, 0x43, 0x44, 0x45, 0x46, 0x00]"

text \<open>The loop \<open>for (int i = ...; i >= 0; i -= 4)\<close> of \<open>terminal_writehex\<close>.\<close>

function writehex_loop :: "32 word \<Rightarrow> int \<Rightarrow> terminal \<Rightarrow> fault + terminal" where
  "writehex_loop val i s =
     (if i \<ge> 0 then
        (case terminal_putchar (hex ! unat (drop_bit (nat i) val AND 0xF)) s of
           Inl e \<Rightarrow> Inl e
         | Inr s' \<Rightarrow> writehex_loop val (i - 4) s')
      else Inr s)"
  by pat_completeness auto
termination
  by (relation "measure (\<lambda>(val, i, s). nat (i + 1))") auto

definition terminal_writehex :: "32 word \<Rightarrow> terminal \<Rightarrow> fault + terminal" where
  "terminal_writehex val s =
     (case terminal_writestring [0x30, 0x78, 0x00] s of
        Inl e \<Rightarrow> Inl e
      | Inr s' \<Rightarrow> writehex_loop val 28 s')"

text \<open>
  \<open>terminal_writedec\<close>. First loop: the digits of the value, least significant first,
  into \<open>char buffer[12]\<close>; it returns the buffer and the count \<open>i\<close>.
\<close>

function writedec_digits :: "32 word \<Rightarrow> 8 word list \<Rightarrow> int \<Rightarrow> fault + (8 word list \<times> int)" where
  "writedec_digits val buffer i =
     (if val > 0 then
        (if 0 \<le> i \<and> i < 12
         then writedec_digits (val div 10) (buffer[nat i := 0x30 + ucast (val mod 10)]) (i + 1)
         else Inl Overrun)
      else Inr (buffer, i))"
  by pat_completeness auto
termination
proof (relation "measure (\<lambda>(val, buffer, i). unat val)")
  show "wf (measure (\<lambda>(val, buffer, i). unat val))"
    by simp
next
  fix val :: "32 word" and buffer :: "8 word list" and i :: int
  assume "0 < val"
  then have "unat val \<noteq> 0"
    by (simp add: unat_gt_0)
  then have "unat val div 10 < unat val"
    by simp
  then show "((val div 10, buffer[nat i := 0x30 + ucast (val mod 10)], i + 1), val, buffer, i)
               \<in> measure (\<lambda>(val, buffer, i). unat val)"
    by (simp add: unat_div)
qed

text \<open>Second loop: \<open>while (i > 0) terminal_putchar(buffer[--i])\<close>.\<close>

function writedec_emit :: "8 word list \<Rightarrow> int \<Rightarrow> terminal \<Rightarrow> fault + terminal" where
  "writedec_emit buffer i s =
     (if i > 0 then
        (if i - 1 < 12 then
           (case terminal_putchar (buffer ! nat (i - 1)) s of
              Inl e \<Rightarrow> Inl e
            | Inr s' \<Rightarrow> writedec_emit buffer (i - 1) s')
         else Inl Overrun)
      else Inr s)"
  by pat_completeness auto
termination
  by (relation "measure (\<lambda>(buffer, i, s). nat i)") auto

text \<open>
  The local \<open>buffer\<close> is not initialised by the source: its initial contents are a
  parameter.
\<close>

definition terminal_writedec :: "8 word list \<Rightarrow> 32 word \<Rightarrow> terminal \<Rightarrow> fault + terminal" where
  "terminal_writedec buffer0 val s =
     (if val = 0 then terminal_putchar 0x30 s
      else (case writedec_digits val buffer0 0 of
              Inl e \<Rightarrow> Inl e
            | Inr (buffer, i) \<Rightarrow> writedec_emit buffer i s))"

text \<open>The cursor invariant of the specification.\<close>

definition cursor_ok :: "terminal \<Rightarrow> bool" where
  "cursor_ok s \<longleftrightarrow> unat (terminal_row s) < VGA_HEIGHT \<and> unat (terminal_col s) < VGA_WIDTH"

section \<open>Emitted text\<close>

text \<open>
  What it means for an operation to emit a sequence of characters: its effect is that of
  \<open>terminal_putchar\<close> applied to each of them in order, and of nothing else.
\<close>

fun put_chars :: "8 word list \<Rightarrow> terminal \<Rightarrow> fault + terminal" where
  "put_chars [] s = Inr s"
| "put_chars (c # cs) s =
     (case terminal_putchar c s of
        Inl e \<Rightarrow> Inl e
      | Inr s' \<Rightarrow> put_chars cs s')"

text \<open>
  The specification's rendering of a 32-bit value in hexadecimal: the prefix \<open>0x\<close>, then
  the eight base-16 digits of the value, most significant first, in upper case.
\<close>

definition spec_hex_digit :: "nat \<Rightarrow> 8 word" where
  "spec_hex_digit d = (if d < 10 then byte CHR ''0'' + of_nat d else byte CHR ''A'' + of_nat (d - 10))"

definition spec_hex_text :: "32 word \<Rightarrow> 8 word list" where
  "spec_hex_text val =
     cstr ''0x'' @ map (\<lambda>k. spec_hex_digit (unat val div 16 ^ k mod 16)) [7, 6, 5, 4, 3, 2, 1, 0]"

section \<open>Interrupt descriptor table\<close>

record idt_entry =
  base_low :: "16 word"
  selector :: "16 word"
  always0 :: "8 word"
  flags :: "8 word"
  base_high :: "16 word"

record idt_ptr =
  limit :: "16 word"
  base :: "32 word"

text \<open>
  The globals \<open>idt\<close> and \<open>idtp\<close>, and the table register of the processor that the
  \<open>lidt\<close> instruction loads. The array \<open>idt[256]\<close> is indexed by a \<open>uint8_t\<close>, so it
  is a function on 8-bit words.
\<close>

record tables =
  idt :: "8 word \<Rightarrow> idt_entry"
  idtp :: idt_ptr
  idtr :: idt_ptr

definition idt_set_gate :: "8 word \<Rightarrow> 32 word \<Rightarrow> 16 word \<Rightarrow> 8 word \<Rightarrow> tables \<Rightarrow> tables" where
  "idt_set_gate num handler sel gate_flags t =
     t\<lparr>idt := (idt t)(num := (idt t num)
          \<lparr>base_low := ucast (handler AND 0xFFFF),
           base_high := ucast (drop_bit 16 handler AND 0xFFFF),
           selector := sel,
           always0 := 0,
           flags := gate_flags\<rparr>)\<rparr>"

text \<open>
  The loop \<open>for (int i = ...; i < 256; i++) idt_set_gate(i, 0, 0, 0)\<close>; the \<open>int\<close> is
  converted to the \<open>uint8_t\<close> parameter.
\<close>

function idt_clear :: "int \<Rightarrow> tables \<Rightarrow> tables" where
  "idt_clear i t = (if i < 256 then idt_clear (i + 1) (idt_set_gate (of_int i) 0 0 0 t) else t)"
  by pat_completeness auto
termination
  by (relation "measure (\<lambda>(i, t). nat (256 - i))") auto

text \<open>
  \<open>idt_install\<close>. The addresses of \<open>idt\<close>, \<open>isr0\<close> and \<open>isr1\<close> are fixed by the linker:
  they are parameters. \<open>sizeof(struct idt_entry)\<close> is 8, the structure being packed.
\<close>

definition idt_install :: "32 word \<Rightarrow> 32 word \<Rightarrow> 32 word \<Rightarrow> tables \<Rightarrow> tables" where
  "idt_install idt_address isr0 isr1 t =
     (let t1 = t\<lparr>idtp := \<lparr>limit = 8 * 256 - 1, base = idt_address\<rparr>\<rparr>;
          t2 = idt_clear 0 t1;
          t3 = idt_set_gate 0 isr0 0x08 0x8E t2;
          t4 = idt_set_gate 1 isr1 0x08 0x8E t3
      in t4\<lparr>idtr := idtp t4\<rparr>)"

text \<open>The handler address that a gate holds, as the processor reads it.\<close>

definition gate_handler :: "idt_entry \<Rightarrow> 32 word" where
  "gate_handler g = push_bit 16 (ucast (base_high g)) OR ucast (base_low g)"

section \<open>Keyboard driver\<close>

definition KEYBOARD_DATA_PORT :: "16 word" where
  "KEYBOARD_DATA_PORT = 0x60"

definition KEYBOARD_STATUS_PORT :: "16 word" where
  "KEYBOARD_STATUS_PORT = 0x64"

text \<open>
  The hardware behind the \<open>inb\<close> instruction: the byte that the \<open>n\<close>-th port read of
  the run returns when it reads the given port.
\<close>

type_synonym port_io = "nat \<Rightarrow> 16 word \<Rightarrow> 8 word"

definition inb :: "port_io \<Rightarrow> nat \<Rightarrow> 16 word \<Rightarrow> 8 word" where
  "inb io n port = io n port"

text \<open>
  The table \<open>scancode_map\<close>, row by row as the source lays it out; the characters
  written as escapes in the source are given by their codes (backspace 8, tab 9,
  newline 10, quote 39, backslash 92).
\<close>

definition scancode_map :: "8 word list" where
  "scancode_map =
     [0, 0] @ cstr ''1234567890-='' @ [8] @
     [9] @ cstr ''qwertyuiop[]'' @ [10] @
     [0] @ cstr ''asdfghjkl;'' @ [39] @ cstr ''`'' @
     [0, 92] @ cstr ''zxcvbnm,./'' @ [0] @
     cstr ''*'' @ [0] @ cstr '' ''"

definition keyboard_scancode_to_ascii :: "8 word \<Rightarrow> 8 word" where
  "keyboard_scancode_to_ascii scancode =
     (if unat scancode < length scancode_map then scancode_map ! unat scancode else 0)"

text \<open>
  \<open>keyboard_read_char\<close> polls for ever while no key press arrives: it is a partial
  function, \<open>None\<close> being the run that never returns. It starts at the \<open>n\<close>-th port read
  and returns the character with the number of the next read.
\<close>

partial_function (option) keyboard_read_char :: "port_io \<Rightarrow> nat \<Rightarrow> (8 word \<times> nat) option" where
  "keyboard_read_char io n =
     (if inb io n KEYBOARD_STATUS_PORT AND 1 \<noteq> 0 then
        (let scancode = inb io (n + 1) KEYBOARD_DATA_PORT
         in if scancode AND 0x80 = 0
            then Some (keyboard_scancode_to_ascii scancode, n + 2)
            else keyboard_read_char io (n + 2))
      else keyboard_read_char io (n + 1))"

text \<open>
  The specification's ``key-release events are silently discarded and polling
  continues'': \<open>discard_polls io j n\<close> is the port read reached from read \<open>n\<close> by
  \<open>j\<close> polls that each found no byte available or found a key-release code; it is
  \<open>None\<close> when one of these polls found a key press.
\<close>

primrec discard_polls :: "port_io \<Rightarrow> nat \<Rightarrow> nat \<Rightarrow> nat option" where
  "discard_polls io 0 n = Some n"
| "discard_polls io (Suc j) n =
     (if inb io n KEYBOARD_STATUS_PORT AND 1 = 0 then discard_polls io j (n + 1)
      else if inb io (n + 1) KEYBOARD_DATA_PORT AND 0x80 \<noteq> 0 then discard_polls io j (n + 2)
      else None)"

section \<open>String helpers\<close>

text \<open>
  A character array is the list of its elements; a pointer into it is the list from
  that element on. \<open>str_cmp\<close> reads both strings up to the first difference or the
  terminator of the first; running off the end of an array is a fault.
\<close>

fun str_cmp :: "8 word list \<Rightarrow> 8 word list \<Rightarrow> fault + int" where
  "str_cmp (c1 # s1) (c2 # s2) =
     (if c1 \<noteq> 0 \<and> c1 = c2 then str_cmp s1 s2 else Inr (uint c1 - uint c2))"
| "str_cmp s1 s2 = Inl Overrun"

text \<open>The C string that an array holds: its bytes before the first zero.\<close>

definition c_string :: "8 word list \<Rightarrow> 8 word list" where
  "c_string a = takeWhile (\<lambda>c. c \<noteq> 0) a"

section \<open>Command shell\<close>

definition cmd_echo :: "8 word list \<Rightarrow> terminal \<Rightarrow> fault + terminal" where
  "cmd_echo args s =
     (case terminal_writestring args s of
        Inl e \<Rightarrow> Inl e
      | Inr s' \<Rightarrow> terminal_putchar (byte CHR 0x0A) s')"

text \<open>
  The body of the line-read loop of \<open>kernel_shell\<close> for the character \<open>c\<close> that
  \<open>keyboard_read_char\<close> has returned, on the terminal, the array \<open>char buffer[256]\<close> and
  the index \<open>int pos\<close>. The boolean of the result says whether the loop is left
  (\<open>break\<close>). The comparisons \<open>c >= 32 && c <= 126\<close> are on the signed \<open>char\<close>.
\<close>

definition line_key ::
  "8 word \<Rightarrow> terminal \<times> 8 word list \<times> int \<Rightarrow> fault + (bool \<times> terminal \<times> 8 word list \<times> int)" where
  "line_key c st =
     (case st of (s, buffer, pos) \<Rightarrow>
        if c = byte CHR 0x0A then
          (case terminal_putchar (byte CHR 0x0A) s of
             Inl e \<Rightarrow> Inl e
           | Inr s' \<Rightarrow>
               if 0 \<le> pos \<and> nat pos < length buffer
               then Inr (True, s', buffer[nat pos := 0], pos)
               else Inl Overrun)
        else if c = byte CHR 0x08 \<and> pos > 0 then
          (if terminal_col s > 0 then
             (let s1 = s\<lparr>terminal_col := terminal_col s - 1\<rparr>
              in case vga_store (unat (terminal_row s1 * of_nat VGA_WIDTH + terminal_col s1))
                        (make_vgaentry (byte CHR '' '') (terminal_color s1)) s1 of
                   Inl e \<Rightarrow> Inl e
                 | Inr s2 \<Rightarrow> Inr (False, s2, buffer, pos - 1))
           else Inr (False, s, buffer, pos - 1))
        else if 32 \<le>s c \<and> c \<le>s 126 \<and> pos < 255 then
          (if 0 \<le> pos \<and> nat pos < length buffer then
             (case terminal_putchar c s of
                Inl e \<Rightarrow> Inl e
              | Inr s' \<Rightarrow> Inr (False, s', buffer[nat pos := c], pos + 1))
           else Inl Overrun)
        else Inr (False, s, buffer, pos))"

text \<open>
  The line-read loop, on the characters that the successive calls of
  \<open>keyboard_read_char\<close> return. When they run out before a newline the loop is still
  blocked in \<open>keyboard_read_char\<close>: the result is \<open>None\<close>. Otherwise it is the state at
  the \<open>break\<close> with the characters not yet consumed.
\<close>

fun read_line ::
  "8 word list \<Rightarrow> terminal \<times> 8 word list \<times> int \<Rightarrow>
   (fault + (terminal \<times> 8 word list \<times> int) \<times> 8 word list) option" where
  "read_line [] st = None"
| "read_line (c # keys) st =
     (case line_key c st of
        Inl e \<Rightarrow> Some (Inl e)
      | Inr (left, st') \<Rightarrow> if left then Some (Inr (st', keys)) else read_line keys st')"

text \<open>
  The tokeniser. The counters \<open>i\<close> and \<open>j\<close> are \<open>int\<close>s that only count up from 0;
  they are natural numbers here. First loop:
  \<open>while (buffer[i] && buffer[i] != ' ') cmd[j++] = buffer[i++]\<close>.
\<close>

function extract_command ::
  "8 word list \<Rightarrow> nat \<Rightarrow> 8 word list \<Rightarrow> nat \<Rightarrow> fault + (8 word list \<times> nat \<times> nat)" where
  "extract_command buffer i cmd j =
     (if i < length buffer then
        (if buffer ! i \<noteq> 0 \<and> buffer ! i \<noteq> byte CHR '' '' then
           (if j < length cmd
            then extract_command buffer (i + 1) (cmd[j := buffer ! i]) (j + 1)
            else Inl Overrun)
         else Inr (cmd, i, j))
      else Inl Overrun)"
  by pat_completeness auto
termination
  by (relation "measure (\<lambda>(buffer, i, cmd, j). length buffer - i)") auto

text \<open>Second loop: \<open>while (buffer[i] == ' ') i++\<close>.\<close>

function skip_spaces :: "8 word list \<Rightarrow> nat \<Rightarrow> fault + nat" where
  "skip_spaces buffer i =
     (if i < length buffer then
        (if buffer ! i = byte CHR '' '' then skip_spaces buffer (i + 1) else Inr i)
      else Inl Overrun)"
  by pat_completeness auto
termination
  by (relation "measure (\<lambda>(buffer, i). length buffer - i)") auto

text \<open>Third loop: \<open>while (buffer[i]) args[j++] = buffer[i++]\<close>.\<close>

function extract_args ::
  "8 word list \<Rightarrow> nat \<Rightarrow> 8 word list \<Rightarrow> nat \<Rightarrow> fault + (8 word list \<times> nat \<times> nat)" where
  "extract_args buffer i args j =
     (if i < length buffer then
        (if buffer ! i \<noteq> 0 then
           (if j < length args
            then extract_args buffer (i + 1) (args[j := buffer ! i]) (j + 1)
            else Inl Overrun)
         else Inr (args, i, j))
      else Inl Overrun)"
  by pat_completeness auto
termination
  by (relation "measure (\<lambda>(buffer, i, args, j). length buffer - i)") auto

text \<open>
  The whole of the parsing. The locals \<open>cmd\<close> and \<open>args\<close> are not initialised by the
  source: their initial contents are parameters. The result is the two arrays.
\<close>

definition parse_command ::
  "8 word list \<Rightarrow> 8 word list \<Rightarrow> 8 word list \<Rightarrow> fault + (8 word list \<times> 8 word list)" where
  "parse_command buffer cmd_init args_init =
     (case extract_command buffer 0 cmd_init 0 of
        Inl e \<Rightarrow> Inl e
      | Inr (cmd1, i1, j1) \<Rightarrow>
          if j1 < length cmd1 then
            (case skip_spaces buffer i1 of
               Inl e \<Rightarrow> Inl e
             | Inr i2 \<Rightarrow>
                 (case extract_args buffer i2 args_init 0 of
                    Inl e \<Rightarrow> Inl e
                  | Inr (args1, i3, j3) \<Rightarrow>
                      if j3 < length args1
                      then Inr (cmd1[j1 := 0], args1[j3 := 0])
                      else Inl Overrun))
          else Inl Overrun)"

text \<open>
  The chain of \<open>str_cmp\<close> tests that selects the command. Of the command bodies only
  \<open>cmd_echo\<close> and \<open>terminal_initialize\<close> (for \<open>clear\<close>) are part of this development,
  so the chain returns the name of the branch it takes.
\<close>

datatype command =
  Help | Clear | Echo | Time | Sysinfo | Colors | Box | Banner | Shutdown | Unknown

definition is_command :: "8 word list \<Rightarrow> string \<Rightarrow> fault + bool" where
  "is_command cmd name =
     (case str_cmp cmd (cstr name @ [0]) of Inl e \<Rightarrow> Inl e | Inr r \<Rightarrow> Inr (r = 0))"

fun select_command :: "8 word list \<Rightarrow> (string \<times> command) list \<Rightarrow> fault + command" where
  "select_command cmd [] = Inr Unknown"
| "select_command cmd ((name, k) # rest) =
     (case is_command cmd name of
        Inl e \<Rightarrow> Inl e
      | Inr True \<Rightarrow> Inr k
      | Inr False \<Rightarrow> select_command cmd rest)"

definition dispatch :: "8 word list \<Rightarrow> fault + command" where
  "dispatch cmd =
     select_command cmd
       [(''help'', Help), (''clear'', Clear), (''echo'', Echo), (''time'', Time),
        (''sysinfo'', Sysinfo), (''colors'', Colors), (''box'', Box), (''banner'', Banner),
        (''shutdown'', Shutdown)]"

text \<open>
  One turn of the outer loop of \<open>kernel_shell\<close> up to the choice of the command: the
  prompt, the line, \<open>if (pos == 0) continue\<close>, the parsing and the chain of tests. The
  result is the terminal and the line buffer at that point, the characters not yet
  consumed, and either \<open>None\<close> (the \<open>continue\<close>: nothing is parsed or dispatched) or the
  command chosen with the arrays \<open>cmd\<close> and \<open>args\<close>.
\<close>

definition shell_turn ::
  "8 word list \<Rightarrow> terminal \<Rightarrow> 8 word list \<Rightarrow> 8 word list \<Rightarrow> 8 word list \<Rightarrow>
   (fault + (terminal \<times> 8 word list \<times> 8 word list \<times>
             (command \<times> 8 word list \<times> 8 word list) option)) option" where
  "shell_turn keys s buffer cmd_init args_init =
     (case terminal_writestring (cstr ''shell> '' @ [0])
             (terminal_setcolor (make_color LIGHT_BLUE BLACK) s) of
        Inl e \<Rightarrow> Some (Inl e)
      | Inr s1 \<Rightarrow>
          (case read_line keys (terminal_setcolor (make_color WHITE BLACK) s1, buffer, 0) of
             None \<Rightarrow> None
           | Some (Inl e) \<Rightarrow> Some (Inl e)
           | Some (Inr ((s2, buffer', pos), keys')) \<Rightarrow>
               if pos = 0 then Some (Inr (s2, buffer', keys', None))
               else
                 (case parse_command buffer' cmd_init args_init of
                    Inl e \<Rightarrow> Some (Inl e)
                  | Inr (cmd, args) \<Rightarrow>
                      (case dispatch cmd of
                         Inl e \<Rightarrow> Some (Inl e)
                       | Inr k \<Rightarrow> Some (Inr (s2, buffer', keys', Some (k, cmd, args)))))))"

section \<open>The terminal driver: loops in closed form\<close>

declare initialize_cols.simps [simp del] initialize_rows.simps [simp del]
  scroll_cols.simps [simp del] scroll_rows.simps [simp del] clear_last_line.simps [simp del]
  writehex_loop.simps [simp del] writedec_digits.simps [simp del] writedec_emit.simps [simp del]

lemma initialize_cols_closed:
  "y < 25 \<Longrightarrow> x \<le> 80 \<Longrightarrow>
   initialize_cols y x s =
     Inr (s\<lparr>vga_buffer := \<lambda>i. if y * 80 + x \<le> i \<and> i < y * 80 + 80
                               then make_vgaentry 0x20 (terminal_color s)
                               else vga_buffer s i\<rparr>)"
proof (induction y x s rule: initialize_cols.induct)
  case (1 y x s)
  show ?case
  proof (cases "x < 80")
    case True
    let ?s1 = "s\<lparr>vga_buffer := (vga_buffer s)(y * 80 + x := make_vgaentry 0x20 (terminal_color s))\<rparr>"
    from True 1(2) have st: "vga_store (y * VGA_WIDTH + x) (make_vgaentry 0x20 (terminal_color s)) s = Inr ?s1"
      by (simp add: vga_store_def VGA_WIDTH_def VGA_HEIGHT_def)
    from True have "initialize_cols y (x + 1) ?s1 = Inr (?s1\<lparr>vga_buffer := \<lambda>i. if y * 80 + (x + 1) \<le> i \<and> i < y * 80 + 80
                               then make_vgaentry 0x20 (terminal_color ?s1)
                               else vga_buffer ?s1 i\<rparr>)"
      using 1(1)[OF _ st] 1(2) by (simp add: VGA_WIDTH_def)
    then show ?thesis
      using True st by (subst initialize_cols.simps) (auto simp: VGA_WIDTH_def fun_eq_iff)
  next
    case False
    with 1(3) have "x = 80" by simp
    then have "(\<lambda>i. if y * 80 + x \<le> i \<and> i < y * 80 + 80
                               then make_vgaentry 0x20 (terminal_color s)
                               else vga_buffer s i) = vga_buffer s"
      by (auto simp: fun_eq_iff)
    with False show ?thesis
      by (subst initialize_cols.simps) (simp add: VGA_WIDTH_def)
  qed
qed

lemma initialize_rows_closed:
  "y \<le> 25 \<Longrightarrow>
   initialize_rows y s =
     Inr (s\<lparr>vga_buffer := \<lambda>i. if y * 80 \<le> i \<and> i < 2000
                               then make_vgaentry 0x20 (terminal_color s)
                               else vga_buffer s i\<rparr>)"
proof (induction y s rule: initialize_rows.induct)
  case (1 y s)
  show ?case
  proof (cases "y < 25")
    case True
    let ?s1 = "s\<lparr>vga_buffer := \<lambda>i. if y * 80 + 0 \<le> i \<and> i < y * 80 + 80
                               then make_vgaentry 0x20 (terminal_color s)
                               else vga_buffer s i\<rparr>"
    from True have st: "initialize_cols y 0 s = Inr ?s1"
      by (simp add: initialize_cols_closed)
    from True have "initialize_rows (y + 1) ?s1 = Inr (?s1\<lparr>vga_buffer := \<lambda>i. if (y + 1) * 80 \<le> i \<and> i < 2000
                               then make_vgaentry 0x20 (terminal_color ?s1)
                               else vga_buffer ?s1 i\<rparr>)"
      using 1(1)[OF _ st] by (simp add: VGA_HEIGHT_def)
    then show ?thesis
      using True st by (subst initialize_rows.simps) (auto simp: VGA_HEIGHT_def fun_eq_iff)
  next
    case False
    with 1(2) have "y = 25" by simp
    then have "(\<lambda>i. if y * 80 \<le> i \<and> i < 2000
                               then make_vgaentry 0x20 (terminal_color s)
                               else vga_buffer s i) = vga_buffer s"
      by (auto simp: fun_eq_iff)
    with False show ?thesis
      by (subst initialize_rows.simps) (simp add: VGA_HEIGHT_def)
  qed
qed

lemma scroll_cols_closed:
  "y < 24 \<Longrightarrow> x \<le> 80 \<Longrightarrow>
   scroll_cols y x s =
     Inr (s\<lparr>vga_buffer := \<lambda>i. if y * 80 + x \<le> i \<and> i < y * 80 + 80
                               then vga_buffer s (i + 80)
                               else vga_buffer s i\<rparr>)"
proof (induction y x s rule: scroll_cols.induct)
  case (1 y x s)
  show ?case
  proof (cases "x < 80")
    case True
    let ?v = "vga_buffer s (y * 80 + x + 80)"
    let ?s1 = "s\<lparr>vga_buffer := (vga_buffer s)(y * 80 + x := ?v)\<rparr>"
    from True 1(2) have ld: "vga_load ((y + 1) * VGA_WIDTH + x) s = Inr ?v"
      by (simp add: vga_load_def VGA_WIDTH_def VGA_HEIGHT_def add.commute add.left_commute)
    from True 1(2) have st: "vga_store (y * VGA_WIDTH + x) ?v s = Inr ?s1"
      by (simp add: vga_store_def VGA_WIDTH_def VGA_HEIGHT_def)
    from True have "scroll_cols y (x + 1) ?s1 = Inr (?s1\<lparr>vga_buffer := \<lambda>i. if y * 80 + (x + 1) \<le> i \<and> i < y * 80 + 80
                               then vga_buffer ?s1 (i + 80)
                               else vga_buffer ?s1 i\<rparr>)"
      using 1(1)[OF _ ld st] 1(2) by (simp add: VGA_WIDTH_def)
    then show ?thesis
      using True st ld by (subst scroll_cols.simps) (auto simp: VGA_WIDTH_def fun_eq_iff)
  next
    case False
    with 1(3) have "x = 80" by simp
    then have "(\<lambda>i. if y * 80 + x \<le> i \<and> i < y * 80 + 80
                               then vga_buffer s (i + 80)
                               else vga_buffer s i) = vga_buffer s"
      by (auto simp: fun_eq_iff)
    with False show ?thesis
      by (subst scroll_cols.simps) (simp add: VGA_WIDTH_def)
  qed
qed

lemma scroll_rows_closed:
  "y \<le> 24 \<Longrightarrow>
   scroll_rows y s =
     Inr (s\<lparr>vga_buffer := \<lambda>i. if y * 80 \<le> i \<and> i < 1920
                               then vga_buffer s (i + 80)
                               else vga_buffer s i\<rparr>)"
proof (induction y s rule: scroll_rows.induct)
  case (1 y s)
  show ?case
  proof (cases "y < 24")
    case True
    let ?s1 = "s\<lparr>vga_buffer := \<lambda>i. if y * 80 + 0 \<le> i \<and> i < y * 80 + 80
                               then vga_buffer s (i + 80)
                               else vga_buffer s i\<rparr>"
    from True have st: "scroll_cols y 0 s = Inr ?s1"
      by (simp add: scroll_cols_closed)
    from True have "scroll_rows (y + 1) ?s1 = Inr (?s1\<lparr>vga_buffer := \<lambda>i. if (y + 1) * 80 \<le> i \<and> i < 1920
                               then vga_buffer ?s1 (i + 80)
                               else vga_buffer ?s1 i\<rparr>)"
      using 1(1)[OF _ st] by (simp add: VGA_HEIGHT_def)
    then show ?thesis
      using True st by (subst scroll_rows.simps) (auto simp: VGA_HEIGHT_def fun_eq_iff)
  next
    case False
    with 1(2) have "y = 24" by simp
    then have "(\<lambda>i. if y * 80 \<le> i \<and> i < 1920
                               then vga_buffer s (i + 80)
                               else vga_buffer s i) = vga_buffer s"
      by (auto simp: fun_eq_iff)
    with False show ?thesis
      by (subst scroll_rows.simps) (simp add: VGA_HEIGHT_def)
  qed
qed

lemma clear_last_line_closed:
  "x \<le> 80 \<Longrightarrow>
   clear_last_line x s =
     Inr (s\<lparr>vga_buffer := \<lambda>i. if 1920 + x \<le> i \<and> i < 2000
                               then make_vgaentry 0x20 (terminal_color s)
                               else vga_buffer s i\<rparr>)"
proof (induction x s rule: clear_last_line.induct)
  case (1 x s)
  show ?case
  proof (cases "x < 80")
    case True
    let ?s1 = "s\<lparr>vga_buffer := (vga_buffer s)(1920 + x := make_vgaentry 0x20 (terminal_color s))\<rparr>"
    from True have st: "vga_store ((VGA_HEIGHT - 1) * VGA_WIDTH + x) (make_vgaentry 0x20 (terminal_color s)) s = Inr ?s1"
      by (simp add: vga_store_def VGA_WIDTH_def VGA_HEIGHT_def)
    from True have "clear_last_line (x + 1) ?s1 = Inr (?s1\<lparr>vga_buffer := \<lambda>i. if 1920 + (x + 1) \<le> i \<and> i < 2000
                               then make_vgaentry 0x20 (terminal_color ?s1)
                               else vga_buffer ?s1 i\<rparr>)"
      using 1(1)[OF _ st] by (simp add: VGA_WIDTH_def)
    then show ?thesis
      using True st by (subst clear_last_line.simps) (auto simp: VGA_WIDTH_def fun_eq_iff)
  next
    case False
    with 1(2) have "x = 80" by simp
    then have "(\<lambda>i. if 1920 + x \<le> i \<and> i < 2000
                               then make_vgaentry 0x20 (terminal_color s)
                               else vga_buffer s i) = vga_buffer s"
      by (auto simp: fun_eq_iff)
    with False show ?thesis
      by (subst clear_last_line.simps) (simp add: VGA_WIDTH_def)
  qed
qed

lemma cursor_index:
  "cursor_ok s \<Longrightarrow>
   unat (terminal_row s * 80 + terminal_col s) = unat (terminal_row s) * 80 + unat (terminal_col s)"
  unfolding cursor_ok_def VGA_WIDTH_def VGA_HEIGHT_def
  by (simp add: unat_word_ariths)

lemma row_succ:
  fixes r :: "32 word"
  assumes "unat r < 25"
  shows "unat (r + 1) = unat r + 1" and "r + 1 = 25 \<longleftrightarrow> r = 24"
  using assms by (unat_arith, simp)+

lemma col_succ:
  fixes c :: "32 word"
  assumes "unat c < 80"
  shows "unat (c + 1) = unat c + 1" and "c + 1 = 80 \<longleftrightarrow> c = 79"
  using assms by (unat_arith, simp)+


lemma blank_entry: "make_vgaentry 0x20 color = push_bit 8 (ucast color) OR 0x20"
  by (simp add: make_vgaentry_def or.commute)

lemma newline_closed:
  assumes "cursor_ok s"
  shows "terminal_putchar 0x0A s =
     Inr (if terminal_row s = 24
          then s\<lparr>terminal_col := 0, terminal_row := 24,
                 vga_buffer := \<lambda>i. if i < 1920 then vga_buffer s (i + 80)
                                    else if i < 2000 then make_vgaentry 0x20 (terminal_color s)
                                    else vga_buffer s i\<rparr>
          else s\<lparr>terminal_col := 0, terminal_row := terminal_row s + 1\<rparr>)"
proof -
  from assms have r: "unat (terminal_row s) < 25"
    by (simp add: cursor_ok_def VGA_HEIGHT_def)
  show ?thesis
  proof (cases "terminal_row s = 24")
    case True
    with r have "terminal_row s + 1 = 25" by (simp add: row_succ)
    with True show ?thesis
      by (simp add: terminal_putchar_def VGA_HEIGHT_def scroll_rows_closed clear_last_line_closed fun_eq_iff Let_def)
  next
    case False
    with r have "terminal_row s + 1 \<noteq> 25" by (simp add: row_succ)
    with False show ?thesis
      by (simp add: terminal_putchar_def VGA_HEIGHT_def Let_def)
  qed
qed

lemma plain_char_closed:
  assumes "cursor_ok s" and "c \<noteq> 0x0A"
  shows "terminal_putchar c s =
     Inr (s\<lparr>vga_buffer := (vga_buffer s)(unat (terminal_row s) * 80 + unat (terminal_col s) := make_vgaentry c (terminal_color s)),
            terminal_col := (if terminal_col s = 79 then 0 else terminal_col s + 1),
            terminal_row := (if terminal_col s = 79
                             then (if terminal_row s = 24 then 0 else terminal_row s + 1)
                             else terminal_row s)\<rparr>)"
proof -
  from assms have r: "unat (terminal_row s) < 25" and c: "unat (terminal_col s) < 80"
    by (simp_all add: cursor_ok_def VGA_HEIGHT_def VGA_WIDTH_def)
  from r c have "unat (terminal_row s) * 80 + unat (terminal_col s) < 2000" by simp
  then have st: "vga_store (unat (terminal_row s * 80 + terminal_col s)) v s
      = Inr (s\<lparr>vga_buffer := (vga_buffer s)(unat (terminal_row s) * 80 + unat (terminal_col s) := v)\<rparr>)" for v
    using assms(1) by (simp add: vga_store_def VGA_WIDTH_def VGA_HEIGHT_def cursor_index)
  show ?thesis
    using assms(2) r c
    by (simp add: terminal_putchar_def st VGA_HEIGHT_def VGA_WIDTH_def row_succ col_succ Let_def)
qed

lemma row_next:
  fixes r :: "32 word"
  shows "unat r < 25 \<Longrightarrow> r \<noteq> 24 \<Longrightarrow> unat (r + 1) < 25"
  by unat_arith

lemma col_next:
  fixes c :: "32 word"
  shows "unat c < 80 \<Longrightarrow> c \<noteq> 79 \<Longrightarrow> unat (c + 1) < 80"
  by unat_arith

lemma putchar_cursor_ok:
  assumes "cursor_ok s"
  shows "\<exists>s'. terminal_putchar c s = Inr s' \<and> cursor_ok s' \<and> terminal_color s' = terminal_color s"
proof -
  from assms have r: "unat (terminal_row s) < 25" and c: "unat (terminal_col s) < 80"
    by (simp_all add: cursor_ok_def VGA_HEIGHT_def VGA_WIDTH_def)
  show ?thesis
  proof (cases "c = 0x0A")
    case True
    then have "terminal_putchar c s = Inr (if terminal_row s = 24
          then s\<lparr>terminal_col := 0, terminal_row := 24,
                 vga_buffer := \<lambda>i. if i < 1920 then vga_buffer s (i + 80)
                                    else if i < 2000 then make_vgaentry 0x20 (terminal_color s)
                                    else vga_buffer s i\<rparr>
          else s\<lparr>terminal_col := 0, terminal_row := terminal_row s + 1\<rparr>)" (is "_ = Inr ?s'")
      using assms by (simp only: newline_closed)
    moreover have "cursor_ok ?s'"
      using row_next [OF r] by (simp add: cursor_ok_def VGA_HEIGHT_def VGA_WIDTH_def)
    moreover have "terminal_color ?s' = terminal_color s"
      by simp
    ultimately show ?thesis
      by blast
  next
    case False
    let ?s' = "s\<lparr>vga_buffer := (vga_buffer s)(unat (terminal_row s) * 80 + unat (terminal_col s) := make_vgaentry c (terminal_color s)),
            terminal_col := (if terminal_col s = 79 then 0 else terminal_col s + 1),
            terminal_row := (if terminal_col s = 79
                             then (if terminal_row s = 24 then 0 else terminal_row s + 1)
                             else terminal_row s)\<rparr>"
    have "terminal_putchar c s = Inr ?s'"
      using assms False by (rule plain_char_closed)
    moreover have "cursor_ok ?s'"
      using row_next [OF r] col_next [OF c] r
      by (simp add: cursor_ok_def VGA_HEIGHT_def VGA_WIDTH_def)
    moreover have "terminal_color ?s' = terminal_color s"
      by simp
    ultimately show ?thesis
      by blast
  qed
qed

lemma writestring_cursor_ok:
  "cursor_ok s \<Longrightarrow>
   \<exists>s'. terminal_writestring str s = Inr s' \<and> cursor_ok s' \<and> terminal_color s' = terminal_color s"
proof (induction str arbitrary: s)
  case Nil
  then show ?case by simp
next
  case (Cons c str)
  from putchar_cursor_ok [OF Cons.prems, of c] obtain s1 where
    s1: "terminal_putchar c s = Inr s1" "cursor_ok s1" "terminal_color s1 = terminal_color s"
    by blast
  from Cons.IH [OF s1(2)] s1 Cons.prems show ?case
    by auto
qed

lemma writehex_loop_cursor_ok:
  "cursor_ok s \<Longrightarrow>
   \<exists>s'. writehex_loop val i s = Inr s' \<and> cursor_ok s' \<and> terminal_color s' = terminal_color s"
proof (induction val i s rule: writehex_loop.induct)
  case (1 val i s)
  show ?case
  proof (cases "i \<ge> 0")
    case True
    let ?c = "hex ! unat (drop_bit (nat i) val AND 0xF)"
    from putchar_cursor_ok [OF 1(2), of ?c] obtain s1 where
      s1: "terminal_putchar ?c s = Inr s1" "cursor_ok s1" "terminal_color s1 = terminal_color s"
      by blast
    from 1(1) [OF True s1(1) s1(2)] s1 True show ?thesis
      by (subst writehex_loop.simps) auto
  next
    case False
    with 1(2) show ?thesis
      by (subst writehex_loop.simps) simp
  qed
qed

lemma writehex_cursor_ok:
  assumes "cursor_ok s"
  shows "\<exists>s'. terminal_writehex val s = Inr s' \<and> cursor_ok s' \<and> terminal_color s' = terminal_color s"
proof -
  from writestring_cursor_ok [OF assms, of "[0x30, 0x78, 0x00]"] obtain s1 where
    s1: "terminal_writestring [0x30, 0x78, 0x00] s = Inr s1" "cursor_ok s1"
        "terminal_color s1 = terminal_color s"
    by blast
  from writehex_loop_cursor_ok [OF s1(2), of val 28] s1 show ?thesis
    by (auto simp: terminal_writehex_def)
qed

lemma writedec_digits_bound:
  "0 \<le> i \<Longrightarrow> i \<le> 10 \<Longrightarrow> unat val < 10 ^ nat (10 - i) \<Longrightarrow>
   \<exists>buffer' j. writedec_digits val buffer i = Inr (buffer', j) \<and> i \<le> j \<and> j \<le> 10"
proof (induction val buffer i rule: writedec_digits.induct)
  case (1 val buffer i)
  show ?case
  proof (cases "val > 0")
    case True
    then have nz: "unat val \<noteq> 0"
      by (simp add: unat_gt_0)
    with 1(4) have "i \<noteq> 10"
      by auto
    with 1(2,3) have i: "0 \<le> i" "i < 10"
      by simp_all
    then have "nat (10 - i) = Suc (nat (10 - (i + 1)))"
      by simp
    with 1(4) have "unat val < 10 * 10 ^ nat (10 - (i + 1))"
      by simp
    then have "unat val div 10 < 10 ^ nat (10 - (i + 1))"
      by (simp add: less_mult_imp_div_less mult.commute)
    then have "unat (val div 10) < 10 ^ nat (10 - (i + 1))"
      by (simp add: unat_div)
    with 1(1) [OF True] i obtain b j where
      "writedec_digits (val div 10) (buffer[nat i := 0x30 + ucast (val mod 10)]) (i + 1) = Inr (b, j)"
      "i + 1 \<le> j" "j \<le> 10"
      by force
    with True i show ?thesis
      by (subst writedec_digits.simps) auto
  next
    case False
    with 1(2,3) show ?thesis
      by (subst writedec_digits.simps) simp
  qed
qed

lemma writedec_emit_cursor_ok:
  "cursor_ok s \<Longrightarrow> i \<le> 12 \<Longrightarrow>
   \<exists>s'. writedec_emit buffer i s = Inr s' \<and> cursor_ok s' \<and> terminal_color s' = terminal_color s"
proof (induction buffer i s rule: writedec_emit.induct)
  case (1 buffer i s)
  show ?case
  proof (cases "i > 0")
    case True
    let ?c = "buffer ! nat (i - 1)"
    from 1(3) have lt: "i - 1 < 12" by simp
    from putchar_cursor_ok [OF 1(2), of ?c] obtain s1 where
      s1: "terminal_putchar ?c s = Inr s1" "cursor_ok s1" "terminal_color s1 = terminal_color s"
      by blast
    from 1(1) [OF True lt s1(1) s1(2)] 1(3) s1 True lt show ?thesis
      by (subst writedec_emit.simps) auto
  next
    case False
    with 1(2) show ?thesis
      by (subst writedec_emit.simps) simp
  qed
qed

lemma writedec_cursor_ok:
  assumes "cursor_ok s"
  shows "\<exists>s'. terminal_writedec buffer0 val s = Inr s' \<and> cursor_ok s' \<and> terminal_color s' = terminal_color s"
proof (cases "val = 0")
  case True
  with putchar_cursor_ok [OF assms, of "0x30"] show ?thesis
    by (simp add: terminal_writedec_def)
next
  case False
  have "unat val < 2 ^ 32"
    using unsigned_less [of val] by simp
  then have "unat val < 10 ^ nat (10 - 0)"
    by simp
  from writedec_digits_bound [where i = 0 and val = val and buffer = buffer0] this obtain b j where
    d: "writedec_digits val buffer0 0 = Inr (b, j)" "j \<le> 10"
    by auto
  from d(2) have "j \<le> 12" by simp
  from writedec_emit_cursor_ok [OF assms this, where buffer = b] d False show ?thesis
    by (auto simp: terminal_writedec_def)
qed

lemma initialize_closed:
  "terminal_initialize s =
     Inr (s\<lparr>terminal_row := 0, terminal_col := 0, terminal_color := 0x0A,
            vga_buffer := \<lambda>i. if i < 2000 then 0x0A20 else vga_buffer s i\<rparr>)"
  by (simp add: terminal_initialize_def initialize_rows_closed make_color_def make_vgaentry_def cong: if_cong)

section \<open>The terminal driver: newline, cursor invariant, grid bounds\<close>

text \<open>
  Claim C2. From a state that satisfies the cursor invariant, \<open>terminal_putchar\<close> with the
  newline character returns, sets the column to 0 and leaves the colour alone. When the
  cursor is on a row before the last one, the row advances by one and the buffer is
  unchanged. When it is on the last row (24), every cell of rows 0 to 23 takes the old
  value of the cell one row below, every cell of row 24 becomes a space in the current
  colour, the row stays 24 and no cell beyond the grid is written: the old row 0 appears
  nowhere in the result.
\<close>

theorem putchar_newline:
  assumes "cursor_ok s"
  shows "\<exists>s'. terminal_putchar 0x0A s = Inr s' \<and>
           terminal_col s' = 0 \<and> terminal_color s' = terminal_color s \<and>
           (if terminal_row s = 24
            then terminal_row s' = 24 \<and>
                 (\<forall>n<24. \<forall>x<80. vga_buffer s' (n * 80 + x) = vga_buffer s ((n + 1) * 80 + x)) \<and>
                 (\<forall>x<80. vga_buffer s' (24 * 80 + x) = push_bit 8 (ucast (terminal_color s)) OR 0x20) \<and>
                 (\<forall>i\<ge>2000. vga_buffer s' i = vga_buffer s i)
            else terminal_row s' = terminal_row s + 1 \<and>
                 unat (terminal_row s') = unat (terminal_row s) + 1 \<and>
                 vga_buffer s' = vga_buffer s)"
proof (cases "terminal_row s = 24")
  case True
  have "n * 80 + x < 1920" if "n < 24" "x < 80" for n x :: nat
    using that by simp
  with True show ?thesis
    by (simp add: newline_closed [OF assms] blank_entry add_ac)
next
  case False
  from assms have "unat (terminal_row s) < 25"
    by (simp add: cursor_ok_def VGA_HEIGHT_def)
  with False show ?thesis
    by (simp add: newline_closed [OF assms] row_succ(1))
qed

text \<open>The scroll at a concrete screen whose cell \<open>i\<close> holds the number \<open>i\<close>.\<close>

theorem putchar_newline_witness:
  "cursor_ok \<lparr>vga_buffer = of_nat, terminal_row = 24, terminal_col = 5, terminal_color = 0x0F\<rparr> \<and>
   (\<exists>s'. terminal_putchar 0x0A
            \<lparr>vga_buffer = of_nat, terminal_row = 24, terminal_col = 5, terminal_color = 0x0F\<rparr> = Inr s' \<and>
         terminal_row s' = 24 \<and> terminal_col s' = 0 \<and>
         vga_buffer s' (3 * 80 + 7) = 327 \<and> vga_buffer s' (24 * 80 + 79) = 0x0F20 \<and>
         vga_buffer s' 2000 = 2000)"
proof -
  let ?s = "\<lparr>vga_buffer = of_nat, terminal_row = 24, terminal_col = 5, terminal_color = 0x0F\<rparr> :: terminal"
  have ok: "cursor_ok ?s"
    by (simp add: cursor_ok_def VGA_HEIGHT_def VGA_WIDTH_def)
  from putchar_newline [OF ok] obtain s' where
    s': "terminal_putchar 0x0A ?s = Inr s'" "terminal_col s' = 0" "terminal_row s' = 24"
        "\<forall>n<24. \<forall>x<80. vga_buffer s' (n * 80 + x) = vga_buffer ?s ((n + 1) * 80 + x)"
        "\<forall>x<80. vga_buffer s' (24 * 80 + x) = push_bit 8 (ucast (terminal_color ?s)) OR 0x20"
        "\<forall>i\<ge>2000. vga_buffer s' i = vga_buffer ?s i"
    by auto
  from s'(4) [rule_format, of 3 7]
  have "vga_buffer s' (3 * 80 + 7) = vga_buffer ?s ((3 + 1) * 80 + 7)"
    by simp
  moreover from s'(5) [rule_format, of 79]
  have "vga_buffer s' (24 * 80 + 79) = push_bit 8 (ucast (terminal_color ?s)) OR 0x20"
    by simp
  moreover from s'(6) [rule_format, of 2000]
  have "vga_buffer s' 2000 = vga_buffer ?s 2000"
    by simp
  ultimately show ?thesis
    using ok s'(1,2,3) by simp
qed

text \<open>
  Claim C3. \<open>terminal_initialize\<close> returns a state that satisfies the cursor invariant
  from any state; from a state that satisfies it, \<open>terminal_setcolor\<close>,
  \<open>terminal_putchar\<close> with any character, \<open>terminal_writestring\<close>,
  \<open>terminal_writehex\<close> and \<open>terminal_writedec\<close> return (no fault) a state that
  satisfies it again.
\<close>

theorem cursor_invariant:
  "(\<exists>s'. terminal_initialize s = Inr s' \<and> cursor_ok s') \<and>
   (cursor_ok s \<longrightarrow>
      cursor_ok (terminal_setcolor color s) \<and>
      (\<exists>s'. terminal_putchar c s = Inr s' \<and> cursor_ok s') \<and>
      (\<exists>s'. terminal_writestring str s = Inr s' \<and> cursor_ok s') \<and>
      (\<exists>s'. terminal_writehex val s = Inr s' \<and> cursor_ok s') \<and>
      (\<exists>s'. terminal_writedec init val s = Inr s' \<and> cursor_ok s'))"
proof -
  have "\<exists>s'. terminal_initialize s = Inr s' \<and> cursor_ok s'"
    by (simp add: initialize_closed cursor_ok_def VGA_HEIGHT_def VGA_WIDTH_def)
  moreover have "cursor_ok (terminal_setcolor color s)" if "cursor_ok s"
    using that by (simp add: terminal_setcolor_def cursor_ok_def)
  moreover have "\<exists>s'. terminal_putchar c s = Inr s' \<and> cursor_ok s'" if "cursor_ok s"
    using putchar_cursor_ok [OF that, of c] by blast
  moreover have "\<exists>s'. terminal_writestring str s = Inr s' \<and> cursor_ok s'" if "cursor_ok s"
    using writestring_cursor_ok [OF that, of str] by blast
  moreover have "\<exists>s'. terminal_writehex val s = Inr s' \<and> cursor_ok s'" if "cursor_ok s"
    using writehex_cursor_ok [OF that, of val] by blast
  moreover have "\<exists>s'. terminal_writedec init val s = Inr s' \<and> cursor_ok s'" if "cursor_ok s"
    using writedec_cursor_ok [OF that, of init val] by blast
  ultimately show ?thesis
    by blast
qed

text \<open>The invariant at the bottom-right corner of the screen.\<close>

theorem cursor_invariant_witness:
  "cursor_ok \<lparr>vga_buffer = \<lambda>i. 0, terminal_row = 24, terminal_col = 79, terminal_color = 7\<rparr> \<and>
   cursor_ok (terminal_setcolor 0xFF
      \<lparr>vga_buffer = \<lambda>i. 0, terminal_row = 24, terminal_col = 79, terminal_color = 7\<rparr>) \<and>
   (\<exists>s'. terminal_putchar 0x41
      \<lparr>vga_buffer = \<lambda>i. 0, terminal_row = 24, terminal_col = 79, terminal_color = 7\<rparr> = Inr s' \<and>
      cursor_ok s') \<and>
   (\<exists>s'. terminal_writedec (replicate 12 0) 4294967295
      \<lparr>vga_buffer = \<lambda>i. 0, terminal_row = 24, terminal_col = 79, terminal_color = 7\<rparr> = Inr s' \<and>
      cursor_ok s')"
proof -
  let ?s = "\<lparr>vga_buffer = \<lambda>i. 0, terminal_row = 24, terminal_col = 79, terminal_color = 7\<rparr> :: terminal"
  have ok: "cursor_ok ?s"
    by (simp add: cursor_ok_def VGA_HEIGHT_def VGA_WIDTH_def)
  with cursor_invariant [where s = ?s and color = "0xFF" and c = "0x41" and init = "replicate 12 0"
      and val = 4294967295]
  show ?thesis
    by blast
qed

text \<open>
  Claim C10. The grid has 2000 cells. Every buffer access of the model is checked against
  that bound, so an operation that returns \<open>Inr\<close> has made no access outside the grid.
  The full clear of \<open>terminal_initialize\<close>, the row copy and the clearing of the last
  line return from every state; under the cursor invariant the index of the cell write
  of \<open>terminal_putchar\<close> is below 2000 and \<open>terminal_putchar\<close> returns for every
  character. None of them changes a cell at index 2000 or beyond.
\<close>

theorem screen_indices_in_grid:
  "VGA_WIDTH * VGA_HEIGHT = 2000 \<and>
   (\<exists>s'. terminal_initialize s = Inr s' \<and> (\<forall>i\<ge>2000. vga_buffer s' i = vga_buffer s i)) \<and>
   (\<exists>s'. scroll_rows 0 s = Inr s' \<and> (\<forall>i\<ge>2000. vga_buffer s' i = vga_buffer s i)) \<and>
   (\<exists>s'. clear_last_line 0 s = Inr s' \<and> (\<forall>i\<ge>2000. vga_buffer s' i = vga_buffer s i)) \<and>
   (cursor_ok s \<longrightarrow>
      unat (terminal_row s * of_nat VGA_WIDTH + terminal_col s) < 2000 \<and>
      (\<exists>s'. terminal_putchar c s = Inr s' \<and> (\<forall>i\<ge>2000. vga_buffer s' i = vga_buffer s i)))"
proof -
  have "VGA_WIDTH * VGA_HEIGHT = 2000"
    by (simp add: VGA_WIDTH_def VGA_HEIGHT_def)
  moreover have "\<exists>s'. terminal_initialize s = Inr s' \<and> (\<forall>i\<ge>2000. vga_buffer s' i = vga_buffer s i)"
    by (simp add: initialize_closed)
  moreover have "\<exists>s'. scroll_rows 0 s = Inr s' \<and> (\<forall>i\<ge>2000. vga_buffer s' i = vga_buffer s i)"
    by (simp add: scroll_rows_closed)
  moreover have "\<exists>s'. clear_last_line 0 s = Inr s' \<and> (\<forall>i\<ge>2000. vga_buffer s' i = vga_buffer s i)"
    by (simp add: clear_last_line_closed)
  moreover have "unat (terminal_row s * of_nat VGA_WIDTH + terminal_col s) < 2000" if "cursor_ok s"
    using that cursor_index [OF that] by (simp add: cursor_ok_def VGA_WIDTH_def VGA_HEIGHT_def)
  moreover have "\<exists>s'. terminal_putchar c s = Inr s' \<and> (\<forall>i\<ge>2000. vga_buffer s' i = vga_buffer s i)"
    if "cursor_ok s"
  proof (cases "c = 0x0A")
    case True
    then show ?thesis
      by (simp add: newline_closed [OF that])
  next
    case False
    from that have "unat (terminal_row s) * 80 + unat (terminal_col s) < 2000"
      by (simp add: cursor_ok_def VGA_WIDTH_def VGA_HEIGHT_def)
    then show ?thesis
      by (simp add: plain_char_closed [OF that False])
  qed
  ultimately show ?thesis
    by blast
qed

text \<open>The bound at the last cell of the grid, with the scrolling newline.\<close>

theorem screen_indices_in_grid_witness:
  "cursor_ok \<lparr>vga_buffer = \<lambda>i. 0, terminal_row = 24, terminal_col = 79, terminal_color = 7\<rparr> \<and>
   unat (terminal_row \<lparr>vga_buffer = \<lambda>i. 0, terminal_row = 24, terminal_col = 79, terminal_color = 7\<rparr>
           * of_nat VGA_WIDTH
         + terminal_col \<lparr>vga_buffer = \<lambda>i. 0, terminal_row = 24, terminal_col = 79, terminal_color = 7\<rparr>)
     < 2000 \<and>
   (\<exists>s'. terminal_putchar 0x0A
      \<lparr>vga_buffer = \<lambda>i. 0, terminal_row = 24, terminal_col = 79, terminal_color = 7\<rparr> = Inr s')"
proof -
  let ?s = "\<lparr>vga_buffer = \<lambda>i. 0, terminal_row = 24, terminal_col = 79, terminal_color = 7\<rparr> :: terminal"
  have ok: "cursor_ok ?s"
    by (simp add: cursor_ok_def VGA_HEIGHT_def VGA_WIDTH_def)
  with screen_indices_in_grid [where s = ?s and c = "0x0A"]
  show ?thesis
    by blast
qed

section \<open>Characters, cells and hexadecimal output\<close>

lemma byte_simps [simp]: "byte (Char b0 b1 b2 b3 b4 b5 b6 b7) = of_nat (of_char (Char b0 b1 b2 b3 b4 b5 b6 b7))"
  by (simp add: byte_def)

lemma scast_nonneg:
  fixes c :: "8 word"
  assumes "0 \<le>s c"
  shows "(scast c :: 16 word) = ucast c"
proof -
  from assms have "\<not> sint c < 0"
    by (simp add: word_sle_eq)
  then have "\<not> bit c (LENGTH(8) - Suc 0)"
    by (simp only: bit_last_iff not_False_eq_True)
  then have "\<not> bit c 7"
    by simp
  then show ?thesis
    by (intro bit_word_eqI) (auto simp: bit_word_scast_iff bit_word_ucast_iff dest: bit_imp_le_length)
qed

lemma make_vgaentry_ascii:
  "0 \<le>s c \<Longrightarrow> make_vgaentry c color = ucast c OR push_bit 8 (ucast color)"
  by (simp add: make_vgaentry_def scast_nonneg)

lemma hex_nth:
  assumes "d < 16"
  shows "hex ! d = spec_hex_digit d"
proof -
  from assms have "d \<in> {0, 1, 2, 3, 4, 5, 6, 7, 8, 9, 10, 11, 12, 13, 14, 15}"
    by (simp add: insert_iff) arith
  then show ?thesis
    by (auto simp: hex_def spec_hex_digit_def)
qed

lemma nibble:
  fixes v :: "32 word"
  shows "unat (drop_bit k v AND 0xF) = unat v div 2 ^ k mod 16"
proof -
  have "(0xF :: 32 word) = mask 4"
    by (simp add: mask_eq_exp_minus_1)
  then have "drop_bit k v AND 0xF = take_bit 4 (drop_bit k v)"
    by (simp only: take_bit_eq_mask)
  then have "unat (drop_bit k v AND 0xF) = take_bit 4 (drop_bit k (unat v))"
    by (simp only: unsigned_take_bit_eq unat_drop_bit_eq)
  then show ?thesis
    by (simp add: take_bit_eq_mod drop_bit_eq_div)
qed


lemma writehex_loop_unrolled:
  "writehex_loop val (4 * int n - 4) s =
     put_chars (map (\<lambda>k. hex ! unat (drop_bit (4 * k) val AND 0xF)) (rev [0..<n])) s"
proof (induction n arbitrary: s)
  case 0
  show ?case
    by (subst writehex_loop.simps) simp
next
  case (Suc n)
  have "nat (4 + 4 * int n - 4) = 4 * n"
    by simp
  with Suc show ?case
    by (subst writehex_loop.simps) (simp cong: sum.case_cong)
qed

lemma writehex_digits:
  "map (\<lambda>k. hex ! unat (drop_bit (4 * k) (val :: 32 word) AND 0xF)) (rev [0..<8]) =
   map (\<lambda>k. spec_hex_digit (unat val div 16 ^ k mod 16)) [7, 6, 5, 4, 3, 2, 1, 0]"
proof -
  have "hex ! unat (drop_bit (4 * k) val AND 0xF) = spec_hex_digit (unat val div 16 ^ k mod 16)" for k
  proof -
    have "(2::nat) ^ (4 * k) = 16 ^ k"
      by (simp add: power_mult)
    then have "unat (drop_bit (4 * k) val AND 0xF) = unat val div 16 ^ k mod 16"
      by (simp only: nibble)
    then show ?thesis
      by (simp add: hex_nth)
  qed
  moreover have "rev [0..<8] = [7, 6, 5, 4, 3, 2, 1, 0 :: nat]"
    by (simp add: upt_rec)
  ultimately show ?thesis
    by simp
qed

lemma put_chars_append:
  "put_chars (xs @ ys) s = (case put_chars xs s of Inl e \<Rightarrow> Inl e | Inr s' \<Rightarrow> put_chars ys s')"
  by (induction xs arbitrary: s) (simp_all split: sum.splits)

lemma writestring_put_chars:
  "0 \<notin> set xs \<Longrightarrow> terminal_writestring xs s = put_chars xs s"
  by (induction xs arbitrary: s) (simp_all split: sum.splits)

lemma writestring_terminated:
  "0 \<notin> set xs \<Longrightarrow> terminal_writestring (xs @ 0 # rest) s = put_chars xs s"
  by (induction xs arbitrary: s) (simp_all split: sum.splits)

lemma writehex_closed: "terminal_writehex val s = put_chars (spec_hex_text val) s"
proof -
  have loop: "writehex_loop val 28 s' =
        put_chars (map (\<lambda>k. spec_hex_digit (unat val div 16 ^ k mod 16)) [7, 6, 5, 4, 3, 2, 1, 0]) s'" for s'
    using writehex_loop_unrolled [of val 8 s'] by (simp only: writehex_digits) simp
  have "terminal_writestring [0x30, 0x78, 0x00] s = put_chars (cstr ''0x'') s"
    using writestring_terminated [of "[0x30, 0x78]" "[]" s] by (simp add: cstr_def)
  then show ?thesis
    by (simp only: terminal_writehex_def spec_hex_text_def put_chars_append loop)
qed

lemma spec_hex_digit_upper:
  assumes "d < 16"
  shows "spec_hex_digit d \<in> set (cstr ''0123456789ABCDEF'')"
proof -
  from assms have "d \<in> {0, 1, 2, 3, 4, 5, 6, 7, 8, 9, 10, 11, 12, 13, 14, 15}"
    by (simp add: insert_iff) arith
  then show ?thesis
    by (auto simp: spec_hex_digit_def cstr_def)
qed

text \<open>
  Claim C9. For every 32-bit value and every state, \<open>terminal_writehex\<close> is the emission
  of the ten characters of \<open>spec_hex_text\<close>: the two characters \<open>0x\<close>, then eight
  characters that are all among \<open>0123456789ABCDEF\<close>, the base-16 digits of the value
  from the most significant to the least, zeros included. For 255 the text is
  \<open>0x000000FF\<close>.
\<close>

theorem writehex_text:
  "terminal_writehex val s = put_chars (spec_hex_text val) s \<and>
   length (spec_hex_text val) = 10 \<and>
   take 2 (spec_hex_text val) = cstr ''0x'' \<and>
   (\<forall>c \<in> set (drop 2 (spec_hex_text val)). c \<in> set (cstr ''0123456789ABCDEF'')) \<and>
   spec_hex_text 255 = cstr ''0x000000FF'' \<and>
   terminal_writehex 255 s = put_chars (cstr ''0x000000FF'') s"
proof -
  have "spec_hex_text 255 = cstr ''0x000000FF''"
    by (simp add: spec_hex_text_def spec_hex_digit_def cstr_def)
  moreover from this have "terminal_writehex 255 s = put_chars (cstr ''0x000000FF'') s"
    by (simp only: writehex_closed)
  moreover have "length (spec_hex_text val) = 10" "take 2 (spec_hex_text val) = cstr ''0x''"
    by (simp_all add: spec_hex_text_def cstr_def)
  moreover have "\<forall>c \<in> set (drop 2 (spec_hex_text val)). c \<in> set (cstr ''0123456789ABCDEF'')"
    by (simp add: spec_hex_text_def cstr_def [of "''0x''"] spec_hex_digit_upper)
  ultimately show ?thesis
    using writehex_closed [of val s] by blast
qed

text \<open>The digits of \<open>0xDEADBEEF\<close>.\<close>

theorem writehex_text_witness:
  "take 2 (spec_hex_text 0xDEADBEEF) = cstr ''0x'' \<and>
   byte CHR ''D'' \<in> set (drop 2 (spec_hex_text 0xDEADBEEF)) \<and>
   byte CHR ''D'' \<in> set (cstr ''0123456789ABCDEF'') \<and>
   spec_hex_text 0xDEADBEEF = cstr ''0xDEADBEEF''"
proof -
  have "spec_hex_text 0xDEADBEEF = cstr ''0xDEADBEEF''"
    by (simp add: spec_hex_text_def spec_hex_digit_def cstr_def)
  moreover from this have "byte CHR ''D'' \<in> set (drop 2 (spec_hex_text 0xDEADBEEF))"
    by (simp add: cstr_def)
  ultimately show ?thesis
    using writehex_text [of "0xDEADBEEF"] by blast
qed

section \<open>The terminal driver: characters other than the newline\<close>

lemma make_vgaentry_negative:
  fixes c :: "8 word"
  assumes "c <s 0"
  shows "drop_bit 8 (make_vgaentry c color) = 0xFF"
proof -
  from assms have "sint c < 0"
    by (simp add: word_sless_alt)
  then have "bit c (LENGTH(8) - Suc 0)"
    by (simp only: bit_last_iff)
  then have "bit c 7"
    by simp
  then have "drop_bit 8 (make_vgaentry c color) = mask 8"
    by (intro bit_word_eqI)
       (auto simp: make_vgaentry_def bit_drop_bit_eq bit_or_iff bit_word_scast_iff bit_push_bit_iff
          bit_word_ucast_iff bit_mask_iff)
  then show ?thesis
    by (simp add: mask_eq_exp_minus_1)
qed

text \<open>
  A character other than the newline moves the cursor one cell forward in row-major
  order, modulo the 2000 cells of the screen.
\<close>

lemma putchar_advance:
  assumes "cursor_ok s" and "c \<noteq> 0x0A"
  shows "\<exists>s'. terminal_putchar c s = Inr s' \<and> cursor_ok s' \<and>
              unat (terminal_row s') * 80 + unat (terminal_col s') =
              (unat (terminal_row s) * 80 + unat (terminal_col s) + 1) mod 2000"
proof -
  from assms have r: "unat (terminal_row s) < 25" and c: "unat (terminal_col s) < 80"
    by (simp_all add: cursor_ok_def VGA_HEIGHT_def VGA_WIDTH_def)
  from putchar_cursor_ok [OF assms(1), of c] obtain s' where
    s': "terminal_putchar c s = Inr s'" "cursor_ok s'"
    by blast
  from s'(1) have rc:
    "terminal_col s' = (if terminal_col s = 79 then 0 else terminal_col s + 1)"
    "terminal_row s' = (if terminal_col s = 79
                             then (if terminal_row s = 24 then 0 else terminal_row s + 1)
                             else terminal_row s)"
    by (auto simp: plain_char_closed [OF assms])
  have "unat (terminal_row s') * 80 + unat (terminal_col s') =
        (unat (terminal_row s) * 80 + unat (terminal_col s) + 1) mod 2000"
  proof (cases "terminal_col s = 79")
    case False
    from col_next [OF c False] have "unat (terminal_col s) + 1 < 80"
      by (simp add: col_succ(1) [OF c])
    with r have "unat (terminal_row s) * 80 + unat (terminal_col s) + 1 < 2000"
      by simp
    with False rc show ?thesis
      by (simp add: col_succ(1) [OF c])
  next
    case True
    show ?thesis
    proof (cases "terminal_row s = 24")
      case True
      with \<open>terminal_col s = 79\<close> rc show ?thesis
        by simp
    next
      case False
      from row_next [OF r False] have "unat (terminal_row s) + 1 < 25"
        by (simp add: row_succ(1) [OF r])
      then have "(unat (terminal_row s) + 1) * 80 < 2000"
        by simp
      with False \<open>terminal_col s = 79\<close> rc show ?thesis
        by (simp add: row_succ(1) [OF r])
    qed
  qed
  with s' show ?thesis
    by blast
qed

lemma put_chars_advance:
  "cursor_ok s \<Longrightarrow> 0x0A \<notin> set cs \<Longrightarrow>
   \<exists>s'. put_chars cs s = Inr s' \<and> cursor_ok s' \<and>
        unat (terminal_row s') * 80 + unat (terminal_col s') =
        (unat (terminal_row s) * 80 + unat (terminal_col s) + length cs) mod 2000"
proof (induction cs arbitrary: s)
  case Nil
  then have "unat (terminal_row s) * 80 + unat (terminal_col s) < 2000"
    by (simp add: cursor_ok_def VGA_HEIGHT_def VGA_WIDTH_def)
  with Nil show ?case
    by simp
next
  case (Cons c cs)
  from Cons.prems have "c \<noteq> 0x0A" "0x0A \<notin> set cs"
    by auto
  from putchar_advance [OF Cons.prems(1) this(1)] obtain s1 where
    s1: "terminal_putchar c s = Inr s1" "cursor_ok s1"
        "unat (terminal_row s1) * 80 + unat (terminal_col s1) =
         (unat (terminal_row s) * 80 + unat (terminal_col s) + 1) mod 2000"
    by blast
  from Cons.IH [OF s1(2) \<open>0x0A \<notin> set cs\<close>] obtain s' where
    s': "put_chars cs s1 = Inr s'" "cursor_ok s'"
        "unat (terminal_row s') * 80 + unat (terminal_col s') =
         (unat (terminal_row s1) * 80 + unat (terminal_col s1) + length cs) mod 2000"
    by blast
  have "(unat (terminal_row s1) * 80 + unat (terminal_col s1) + length cs) mod 2000 =
        (unat (terminal_row s) * 80 + unat (terminal_col s) + length (c # cs)) mod 2000"
    by (simp add: s1(3) mod_add_left_eq add.assoc)
  with s1 s' show ?case
    by simp
qed

lemma full_screen_returns_home:
  assumes "terminal_row s = 0" "terminal_col s = 0" "length cs = 2000" "0x0A \<notin> set cs"
  shows "\<exists>s'. put_chars cs s = Inr s' \<and> terminal_row s' = 0 \<and> terminal_col s' = 0"
proof -
  from assms(1,2) have "cursor_ok s"
    by (simp add: cursor_ok_def VGA_HEIGHT_def VGA_WIDTH_def)
  from put_chars_advance [OF this assms(4)] assms(1,2,3) obtain s' where
    "put_chars cs s = Inr s'" "unat (terminal_row s') * 80 + unat (terminal_col s') = 0"
    by auto
  then show ?thesis
    by (auto simp: unat_eq_0)
qed

text \<open>
  Claim C1. The cursor part of the claim holds (\<open>plain_char_closed\<close>,
  \<open>putchar_advance\<close>, \<open>full_screen_returns_home\<close>), and a character with a
  non-negative code is stored with the current colour (\<open>make_vgaentry_ascii\<close>). A
  character with the high bit set is not: with the colour \<open>0x0A\<close> and the cursor at the
  origin, \<open>terminal_putchar\<close> of the character \<open>0x80\<close> stores the cell \<open>0xFF80\<close>, whose
  attribute byte is \<open>0xFF\<close> and not the current colour, because the cast of the signed
  \<open>char\<close> to \<open>uint16_t\<close> in \<open>make_vgaentry\<close> extends the sign.
\<close>

theorem putchar_sign_extends:
  "terminal_putchar 0x80
     \<lparr>vga_buffer = \<lambda>i. 0, terminal_row = 0, terminal_col = 0, terminal_color = 0x0A\<rparr> =
   Inr \<lparr>vga_buffer = (\<lambda>i. 0)(0 := 0xFF80), terminal_row = 0, terminal_col = 1,
        terminal_color = 0x0A\<rparr>"
proof -
  let ?s = "\<lparr>vga_buffer = \<lambda>i. 0, terminal_row = 0, terminal_col = 0, terminal_color = 0x0A\<rparr> :: terminal"
  have "cursor_ok ?s"
    by (simp add: cursor_ok_def VGA_HEIGHT_def VGA_WIDTH_def)
  moreover have "make_vgaentry 0x80 0x0A = 0xFF80"
    by (simp add: make_vgaentry_def)
  ultimately show ?thesis
    by (simp add: plain_char_closed)
qed

section \<open>The interrupt descriptor table after installation\<close>

declare idt_clear.simps [simp del]

lemma word8_of_int_eq:
  fixes n :: "8 word"
  assumes "0 \<le> i" "i < 256"
  shows "n = of_int i \<longleftrightarrow> uint n = i"
proof
  assume "n = of_int i"
  with assms show "uint n = i"
    by (simp add: uint_word_of_int)
next
  assume "uint n = i"
  then show "n = of_int i"
    by (metis word_of_int_uint)
qed

lemma idt_clear_closed:
  "0 \<le> i \<Longrightarrow> i \<le> 256 \<Longrightarrow>
   idt_clear i t =
     t\<lparr>idt := \<lambda>n. if i \<le> uint n
                    then (idt t n)\<lparr>base_low := 0, base_high := 0, selector := 0, always0 := 0, flags := 0\<rparr>
                    else idt t n\<rparr>"
proof (induction i t rule: idt_clear.induct)
  case (1 i t)
  show ?case
  proof (cases "i < 256")
    case True
    have eq: "n = of_int i \<longleftrightarrow> uint n = i" for n :: "8 word"
      using 1(2) True by (rule word8_of_int_eq)
    from True 1(2) have "idt_clear (i + 1) (idt_set_gate (of_int i) 0 0 0 t) =
        (idt_set_gate (of_int i) 0 0 0 t)\<lparr>idt := \<lambda>n. if i + 1 \<le> uint n
             then (idt (idt_set_gate (of_int i) 0 0 0 t) n)\<lparr>base_low := 0, base_high := 0, selector := 0, always0 := 0, flags := 0\<rparr>
             else idt (idt_set_gate (of_int i) 0 0 0 t) n\<rparr>"
      by (intro 1(1)) simp_all
    with True show ?thesis
      by (subst idt_clear.simps) (auto simp: idt_set_gate_def fun_eq_iff eq)
  next
    case False
    with 1(3) have "i = 256" by simp
    have "\<not> 256 \<le> uint n" for n :: "8 word"
      using uint_bounded [of n] by simp
    then have "(\<lambda>n :: 8 word. if 256 \<le> uint n
                    then (idt t n)\<lparr>base_low := 0, base_high := 0, selector := 0, always0 := 0, flags := 0\<rparr>
                    else idt t n) = idt t"
      by (auto simp: fun_eq_iff)
    with False \<open>i = 256\<close> show ?thesis
      by (subst idt_clear.simps) simp
  qed
qed

lemma gate_handler_set:
  assumes "base_low g = ucast (handler AND 0xFFFF)"
    and "base_high g = ucast (drop_bit 16 handler AND 0xFFFF)"
  shows "gate_handler g = handler"
proof -
  have m: "(0xFFFF :: 32 word) = mask 16"
    by (simp add: mask_eq_exp_minus_1)
  show ?thesis
    unfolding gate_handler_def assms m
    by (intro bit_word_eqI)
       (auto simp: bit_or_iff bit_push_bit_iff bit_word_ucast_iff bit_and_iff bit_mask_iff
          bit_drop_bit_eq)
qed

lemma idt_install_closed:
  "idt (idt_install idt_address isr0 isr1 t) =
     (\<lambda>n. if n = 1 then \<lparr>base_low = ucast (isr1 AND 0xFFFF), selector = 0x08, always0 = 0,
                           flags = 0x8E, base_high = ucast (drop_bit 16 isr1 AND 0xFFFF)\<rparr>
          else if n = 0 then \<lparr>base_low = ucast (isr0 AND 0xFFFF), selector = 0x08, always0 = 0,
                           flags = 0x8E, base_high = ucast (drop_bit 16 isr0 AND 0xFFFF)\<rparr>
          else \<lparr>base_low = 0, selector = 0, always0 = 0, flags = 0, base_high = 0\<rparr>)"
  by (simp add: idt_install_def idt_clear_closed idt_set_gate_def Let_def fun_eq_iff)

text \<open>
  Claim C8. After \<open>idt_install\<close>, whatever the table held before, every gate with an
  index from 2 to 255 has all its fields zero; gates 0 and 1 hold the addresses of
  \<open>isr0\<close> and \<open>isr1\<close> (so a non-zero address gives a non-zero handler), the selector
  \<open>0x08\<close>, the flags byte \<open>0x8E\<close> (present, ring 0, 32-bit interrupt gate) and a zero
  reserved byte.
\<close>

theorem idt_install_gates:
  "(\<forall>n. 2 \<le> n \<longrightarrow>
        idt (idt_install idt_address isr_zero isr_one t) n =
          \<lparr>base_low = 0, selector = 0, always0 = 0, flags = 0, base_high = 0\<rparr>) \<and>
   gate_handler (idt (idt_install idt_address isr_zero isr_one t) 0) = isr_zero \<and>
   gate_handler (idt (idt_install idt_address isr_zero isr_one t) 1) = isr_one \<and>
   (isr_zero \<noteq> 0 \<longrightarrow> gate_handler (idt (idt_install idt_address isr_zero isr_one t) 0) \<noteq> 0) \<and>
   (isr_one \<noteq> 0 \<longrightarrow> gate_handler (idt (idt_install idt_address isr_zero isr_one t) 1) \<noteq> 0) \<and>
   (\<forall>n \<in> {0, 1}.
        selector (idt (idt_install idt_address isr_zero isr_one t) n) = 0x08 \<and>
        flags (idt (idt_install idt_address isr_zero isr_one t) n) = 0x8E \<and>
        always0 (idt (idt_install idt_address isr_zero isr_one t) n) = 0)"
proof -
  have h0: "gate_handler (idt (idt_install idt_address isr_zero isr_one t) 0) = isr_zero"
    by (rule gate_handler_set) (simp_all add: idt_install_closed)
  have h1: "gate_handler (idt (idt_install idt_address isr_zero isr_one t) 1) = isr_one"
    by (rule gate_handler_set) (simp_all add: idt_install_closed)
  have "n \<noteq> 0 \<and> n \<noteq> 1" if "2 \<le> n" for n :: "8 word"
    using that by (auto simp: word_le_nat_alt)
  then have "\<forall>n. 2 \<le> n \<longrightarrow>
        idt (idt_install idt_address isr_zero isr_one t) n =
          \<lparr>base_low = 0, selector = 0, always0 = 0, flags = 0, base_high = 0\<rparr>"
    by (simp add: idt_install_closed)
  moreover have "\<forall>n \<in> {0, 1}.
        selector (idt (idt_install idt_address isr_zero isr_one t) n) = 0x08 \<and>
        flags (idt (idt_install idt_address isr_zero isr_one t) n) = 0x8E \<and>
        always0 (idt (idt_install idt_address isr_zero isr_one t) n) = 0"
    by (simp add: idt_install_closed)
  ultimately show ?thesis
    using h0 h1 by simp
qed

text \<open>The table after installation over a table full of ones, with two handler addresses.\<close>

theorem idt_install_gates_witness:
  "(2 :: 8 word) \<le> 200 \<and>
   idt (idt_install 0x00104000 0x00100A10 0x00100A20
          \<lparr>idt = \<lambda>n. \<lparr>base_low = 1, selector = 1, always0 = 1, flags = 1, base_high = 1\<rparr>,
           idtp = \<lparr>limit = 0, base = 0\<rparr>, idtr = \<lparr>limit = 0, base = 0\<rparr>\<rparr>) 200 =
     \<lparr>base_low = 0, selector = 0, always0 = 0, flags = 0, base_high = 0\<rparr> \<and>
   (0x00100A10 :: 32 word) \<noteq> 0 \<and>
   gate_handler (idt (idt_install 0x00104000 0x00100A10 0x00100A20
          \<lparr>idt = \<lambda>n. \<lparr>base_low = 1, selector = 1, always0 = 1, flags = 1, base_high = 1\<rparr>,
           idtp = \<lparr>limit = 0, base = 0\<rparr>, idtr = \<lparr>limit = 0, base = 0\<rparr>\<rparr>) 0) \<noteq> 0 \<and>
   (1 :: 8 word) \<in> {0, 1} \<and>
   flags (idt (idt_install 0x00104000 0x00100A10 0x00100A20
          \<lparr>idt = \<lambda>n. \<lparr>base_low = 1, selector = 1, always0 = 1, flags = 1, base_high = 1\<rparr>,
           idtp = \<lparr>limit = 0, base = 0\<rparr>, idtr = \<lparr>limit = 0, base = 0\<rparr>\<rparr>) 1) = 0x8E"
proof -
  let ?t = "\<lparr>idt = \<lambda>n. \<lparr>base_low = 1, selector = 1, always0 = 1, flags = 1, base_high = 1\<rparr>,
           idtp = \<lparr>limit = 0, base = 0\<rparr>, idtr = \<lparr>limit = 0, base = 0\<rparr>\<rparr> :: tables"
  have a: "(2 :: 8 word) \<le> 200" "(0x00100A10 :: 32 word) \<noteq> 0" "(1 :: 8 word) \<in> {0, 1}"
    by simp_all
  from idt_install_gates [where idt_address = "0x00104000" and isr_zero = "0x00100A10"
      and isr_one = "0x00100A20" and t = ?t] a
  show ?thesis
    by blast
qed

section \<open>The keyboard driver\<close>

lemma read_char_ready_press:
  assumes "inb io n KEYBOARD_STATUS_PORT AND 1 \<noteq> 0"
    and "inb io (n + 1) KEYBOARD_DATA_PORT AND 0x80 = 0"
  shows "keyboard_read_char io n =
         Some (keyboard_scancode_to_ascii (inb io (n + 1) KEYBOARD_DATA_PORT), n + 2)"
  using assms by (subst keyboard_read_char.simps) simp

lemma read_char_not_ready:
  assumes "inb io n KEYBOARD_STATUS_PORT AND 1 = 0"
  shows "keyboard_read_char io n = keyboard_read_char io (n + 1)"
  using assms by (subst keyboard_read_char.simps) simp

lemma read_char_release:
  assumes "inb io n KEYBOARD_STATUS_PORT AND 1 \<noteq> 0"
    and "inb io (n + 1) KEYBOARD_DATA_PORT AND 0x80 \<noteq> 0"
  shows "keyboard_read_char io n = keyboard_read_char io (n + 2)"
  using assms by (subst keyboard_read_char.simps) simp

lemma read_char_after_discard:
  "discard_polls io j n = Some k \<Longrightarrow> keyboard_read_char io n = keyboard_read_char io k"
proof (induction j arbitrary: n)
  case 0
  then show ?case by simp
next
  case (Suc j)
  show ?case
  proof (cases "inb io n KEYBOARD_STATUS_PORT AND 1 = 0")
    case True
    with Suc.prems have "discard_polls io j (n + 1) = Some k"
      by simp
    with Suc.IH True show ?thesis
      by (simp add: read_char_not_ready)
  next
    case False
    with Suc.prems have rel: "inb io (n + 1) KEYBOARD_DATA_PORT AND 0x80 \<noteq> 0"
      and "discard_polls io j (n + 2) = Some k"
      by (auto split: if_splits)
    with Suc.IH False show ?thesis
      by (simp add: read_char_release)
  qed
qed

lemma read_char_returns_press:
  assumes "keyboard_read_char io n = Some r"
  shows "\<exists>j k. discard_polls io j n = Some k \<and>
           inb io k KEYBOARD_STATUS_PORT AND 1 \<noteq> 0 \<and>
           inb io (k + 1) KEYBOARD_DATA_PORT AND 0x80 = 0 \<and>
           r = (keyboard_scancode_to_ascii (inb io (k + 1) KEYBOARD_DATA_PORT), k + 2)"
  using assms
proof (induction rule: keyboard_read_char.raw_induct [rotated 1, consumes 1])
  case (1 read io n r)
  show ?case
  proof (cases "inb io n KEYBOARD_STATUS_PORT AND 1 = 0")
    case True
    with 1(2) have "read io (n + 1) = Some r"
      by simp
    from 1(1) [OF this] obtain j k where
      jk: "discard_polls io j (n + 1) = Some k"
          "inb io k KEYBOARD_STATUS_PORT AND 1 \<noteq> 0"
          "inb io (k + 1) KEYBOARD_DATA_PORT AND 0x80 = 0"
          "r = (keyboard_scancode_to_ascii (inb io (k + 1) KEYBOARD_DATA_PORT), k + 2)"
      by blast
    from jk(1) True have "discard_polls io (Suc j) n = Some k"
      by simp
    with jk(2,3,4) show ?thesis
      by blast
  next
    case ready: False
    show ?thesis
    proof (cases "inb io (n + 1) KEYBOARD_DATA_PORT AND 0x80 = 0")
      case True
      with ready 1(2) have "r = (keyboard_scancode_to_ascii (inb io (n + 1) KEYBOARD_DATA_PORT), n + 2)"
        by (simp add: Let_def)
      moreover have "discard_polls io 0 n = Some n"
        by simp
      ultimately show ?thesis
        using ready True by blast
    next
      case False
      with ready 1(2) have "read io (n + 2) = Some r"
        by (simp add: Let_def)
      from 1(1) [OF this] obtain j k where
        jk: "discard_polls io j (n + 2) = Some k"
            "inb io k KEYBOARD_STATUS_PORT AND 1 \<noteq> 0"
            "inb io (k + 1) KEYBOARD_DATA_PORT AND 0x80 = 0"
            "r = (keyboard_scancode_to_ascii (inb io (k + 1) KEYBOARD_DATA_PORT), k + 2)"
        by blast
      from jk(1) ready False have "discard_polls io (Suc j) n = Some k"
        by simp
      with jk(2,3,4) show ?thesis
        by blast
    qed
  qed
qed

lemma scancode_map_null:
  "list_all (\<lambda>k. (scancode_map ! k = 0) = (k \<in> set [0, 1, 29, 42, 54, 56])) [0..<58]"
  by code_simp

lemma scancode_to_ascii_null:
  "keyboard_scancode_to_ascii scancode = 0 \<longleftrightarrow>
   unat scancode \<in> {0, 1, 29, 42, 54, 56} \<or> 58 \<le> unat scancode"
proof (cases "unat scancode < 58")
  case True
  with scancode_map_null have "(scancode_map ! unat scancode = 0) = (unat scancode \<in> set [0, 1, 29, 42, 54, 56])"
    unfolding list_all_iff by simp
  moreover have "length scancode_map = 58"
    by (simp add: scancode_map_def cstr_def)
  ultimately show ?thesis
    using True by (simp add: keyboard_scancode_to_ascii_def)
next
  case False
  moreover have "length scancode_map = 58"
    by (simp add: scancode_map_def cstr_def)
  ultimately show ?thesis
    by (simp add: keyboard_scancode_to_ascii_def)
qed


text \<open>
  Claim C4, as amended. \<open>keyboard_read_char\<close> returns exactly when, after some number of
  polls that each found no byte available or a key-release code (high bit set), a poll
  finds a byte available whose code has the high bit clear; what it returns is
  \<open>keyboard_scancode_to_ascii\<close> of that key-press code, the discarded polls leaving no
  trace. That value is the null character exactly when the code is 0, 1, 29, 42, 54
  or 56 (keys with no ASCII mapping) or is 58 or more (outside the table).
\<close>

theorem keyboard_read_char_press:
  "(keyboard_read_char io n = Some (c, m) \<longleftrightarrow>
      (\<exists>j k. discard_polls io j n = Some k \<and>
             inb io k KEYBOARD_STATUS_PORT AND 1 \<noteq> 0 \<and>
             inb io (k + 1) KEYBOARD_DATA_PORT AND 0x80 = 0 \<and>
             c = keyboard_scancode_to_ascii (inb io (k + 1) KEYBOARD_DATA_PORT) \<and>
             m = k + 2)) \<and>
   (keyboard_scancode_to_ascii scancode = 0 \<longleftrightarrow>
      unat scancode \<in> {0, 1, 29, 42, 54, 56} \<or> 58 \<le> unat scancode)"
proof -
  have "keyboard_read_char io n = Some (c, m)"
    if "discard_polls io j n = Some k" "inb io k KEYBOARD_STATUS_PORT AND 1 \<noteq> 0"
       "inb io (k + 1) KEYBOARD_DATA_PORT AND 0x80 = 0"
       "c = keyboard_scancode_to_ascii (inb io (k + 1) KEYBOARD_DATA_PORT)" "m = k + 2"
    for j k
    using that by (simp add: read_char_after_discard read_char_ready_press)
  moreover have "\<exists>j k. discard_polls io j n = Some k \<and>
             inb io k KEYBOARD_STATUS_PORT AND 1 \<noteq> 0 \<and>
             inb io (k + 1) KEYBOARD_DATA_PORT AND 0x80 = 0 \<and>
             c = keyboard_scancode_to_ascii (inb io (k + 1) KEYBOARD_DATA_PORT) \<and>
             m = k + 2"
    if "keyboard_read_char io n = Some (c, m)"
    using read_char_returns_press [OF that] by auto
  ultimately show ?thesis
    using scancode_to_ascii_null [of scancode] by blast
qed

text \<open>
  A poll with no byte available, then the release and the press of the key \<open>a\<close>; and
  the code of the key F1, which is outside the table.
\<close>

theorem keyboard_read_char_press_witness:
  "discard_polls (\<lambda>n port. [0, 1, 0x9E, 1, 0x1E] ! n) 2 0 = Some 3 \<and>
   keyboard_read_char (\<lambda>n port. [0, 1, 0x9E, 1, 0x1E] ! n) 0 = Some (byte CHR ''a'', 5) \<and>
   keyboard_scancode_to_ascii 0x3B = 0"
proof -
  let ?io = "\<lambda>(n :: nat) (port :: 16 word). [0, 1, 0x9E, 1, 0x1E :: 8 word] ! n"
  have "discard_polls ?io (Suc (Suc 0)) 0 = Some 3"
    by (simp add: inb_def)
  then have d: "discard_polls ?io 2 0 = Some 3"
    by (simp only: numeral_2_eq_2)
  have "inb ?io 3 KEYBOARD_STATUS_PORT AND 1 \<noteq> 0"
       "inb ?io (3 + 1) KEYBOARD_DATA_PORT AND 0x80 = 0"
       "byte CHR ''a'' = keyboard_scancode_to_ascii (inb ?io (3 + 1) KEYBOARD_DATA_PORT)"
    by (simp_all add: inb_def keyboard_scancode_to_ascii_def scancode_map_def cstr_def)
  with d keyboard_read_char_press [of ?io 0 "byte CHR ''a''" 5 "0x3B"]
  show ?thesis
    by auto
qed

text \<open>
  The claim as stated fails: with a byte always available and the scan code 1 (the press
  of the Escape key), \<open>keyboard_read_char\<close> returns the null character.
\<close>

theorem keyboard_read_char_returns_null:
  "keyboard_read_char (\<lambda>n port. 1) 0 = Some (0, 2)"
  by (simp add: keyboard_read_char.simps inb_def keyboard_scancode_to_ascii_def scancode_map_def cstr_def)

section \<open>The shell: parsing and line reading\<close>

declare extract_command.simps [simp del] skip_spaces.simps [simp del] extract_args.simps [simp del]

lemma c_string_props:
  assumes "0 \<in> set buffer"
  shows "length (c_string buffer) < length buffer"
    and "buffer ! length (c_string buffer) = 0"
    and "\<And>i. i < length (c_string buffer) \<Longrightarrow> c_string buffer ! i = buffer ! i"
    and "\<And>i. i < length (c_string buffer) \<Longrightarrow> buffer ! i \<noteq> 0"
proof -
  have "takeWhile (\<lambda>c. c \<noteq> 0) buffer \<noteq> buffer"
    using assms by (simp add: takeWhile_eq_all_conv)
  then have "length (takeWhile (\<lambda>c. c \<noteq> 0) buffer) \<noteq> length buffer"
    by (metis takeWhile_eq_take take_all order_refl)
  with length_takeWhile_le [of "\<lambda>c. c \<noteq> 0" buffer]
  show lt: "length (c_string buffer) < length buffer"
    by (simp add: c_string_def)
  from nth_length_takeWhile [of "\<lambda>c. c \<noteq> 0" buffer] lt
  show "buffer ! length (c_string buffer) = 0"
    by (simp add: c_string_def)
  show eq: "c_string buffer ! i = buffer ! i" if "i < length (c_string buffer)" for i
    using that unfolding c_string_def by (rule takeWhile_nth)
  show "buffer ! i \<noteq> 0" if "i < length (c_string buffer)" for i
  proof -
    from that have "c_string buffer ! i \<in> set (takeWhile (\<lambda>c. c \<noteq> 0) buffer)"
      unfolding c_string_def by (rule nth_mem)
    then have "c_string buffer ! i \<noteq> 0"
      by (rule set_takeWhileD [THEN conjunct2])
    with eq [OF that] show ?thesis
      by simp
  qed
qed

lemma update_between:
  assumes "j < length xs"
  shows "take (j + 1) (xs[j := b]) @ w @ drop (j + 1 + length w) (xs[j := b]) =
         take j xs @ (b # w) @ drop (j + length (b # w)) xs"
proof -
  from assms have "take (j + 1) (xs[j := b]) = take j xs @ [b]"
    by (simp add: take_Suc_conv_app_nth)
  then show ?thesis
    by simp
qed

lemma extract_command_spec:
  "i \<le> length (c_string buffer) \<Longrightarrow> 0 \<in> set buffer \<Longrightarrow> length buffer \<le> length cmd \<Longrightarrow>
   j \<le> i \<Longrightarrow>
   extract_command buffer i cmd j =
     Inr (take j cmd @ takeWhile (\<lambda>c. c \<noteq> 0x20) (drop i (c_string buffer)) @
            drop (j + length (takeWhile (\<lambda>c. c \<noteq> 0x20) (drop i (c_string buffer)))) cmd,
          i + length (takeWhile (\<lambda>c. c \<noteq> 0x20) (drop i (c_string buffer))),
          j + length (takeWhile (\<lambda>c. c \<noteq> 0x20) (drop i (c_string buffer))))"
proof (induction buffer i cmd j rule: extract_command.induct)
  case (1 buffer i cmd j)
  let ?line = "c_string buffer"
  note cs = c_string_props [OF 1(3)]
  from 1(2) cs(1) have ib: "i < length buffer"
    by simp
  show ?case
  proof (cases "buffer ! i \<noteq> 0 \<and> buffer ! i \<noteq> 0x20")
    case True
    with cs(2) 1(2) have il: "i < length ?line"
      by (cases "i = length ?line") auto
    then have "drop i ?line = ?line ! i # drop (Suc i) ?line"
      by (rule Cons_nth_drop_Suc [symmetric])
    then have d: "drop i ?line = buffer ! i # drop (i + 1) ?line"
      by (simp add: cs(3) [OF il])
    from ib 1(4,5) have jc: "j < length cmd"
      by simp
    let ?w = "takeWhile (\<lambda>c. c \<noteq> 0x20) (drop (i + 1) ?line)"
    have "extract_command buffer (i + 1) (cmd[j := buffer ! i]) (j + 1) =
          Inr (take (j + 1) (cmd[j := buffer ! i]) @ ?w @ drop (j + 1 + length ?w) (cmd[j := buffer ! i]),
               i + 1 + length ?w, j + 1 + length ?w)"
      using ib True jc il 1(3,4,5) by (intro 1(1)) simp_all
    also have "take (j + 1) (cmd[j := buffer ! i]) @ ?w @ drop (j + 1 + length ?w) (cmd[j := buffer ! i]) =
               take j cmd @ (buffer ! i # ?w) @ drop (j + length (buffer ! i # ?w)) cmd"
      using jc by (rule update_between)
    finally show ?thesis
      using ib True jc d by (subst extract_command.simps) simp
  next
    case False
    have "takeWhile (\<lambda>c. c \<noteq> 0x20) (drop i ?line) = []"
    proof (cases "i < length ?line")
      case True
      with cs(3,4) False have "?line ! i = 0x20"
        by auto
      with True show ?thesis
        by (simp add: takeWhile_eq_Nil_iff hd_drop_conv_nth)
    next
      case False
      then show ?thesis by simp
    qed
    with ib False show ?thesis
      by (subst extract_command.simps) auto
  qed
qed

lemma skip_spaces_spec:
  "i \<le> length (c_string buffer) \<Longrightarrow> 0 \<in> set buffer \<Longrightarrow>
   skip_spaces buffer i =
     Inr (i + length (takeWhile (\<lambda>c. c = 0x20) (drop i (c_string buffer))))"
proof (induction buffer i rule: skip_spaces.induct)
  case (1 buffer i)
  let ?line = "c_string buffer"
  note cs = c_string_props [OF 1(3)]
  from 1(2) cs(1) have ib: "i < length buffer"
    by simp
  show ?case
  proof (cases "buffer ! i = 0x20")
    case True
    with cs(2) 1(2) have il: "i < length ?line"
      by (cases "i = length ?line") auto
    then have "drop i ?line = ?line ! i # drop (Suc i) ?line"
      by (rule Cons_nth_drop_Suc [symmetric])
    then have d: "drop i ?line = buffer ! i # drop (i + 1) ?line"
      by (simp add: cs(3) [OF il])
    have "skip_spaces buffer (i + 1) =
          Inr (i + 1 + length (takeWhile (\<lambda>c. c = 0x20) (drop (i + 1) ?line)))"
      using ib True il 1(3) by (intro 1(1)) simp_all
    then show ?thesis
      using ib True d by (subst skip_spaces.simps) simp
  next
    case False
    have "takeWhile (\<lambda>c. c = 0x20) (drop i ?line) = []"
    proof (cases "i < length ?line")
      case True
      with cs(3) False have "?line ! i \<noteq> 0x20"
        by auto
      with True show ?thesis
        by (simp add: takeWhile_eq_Nil_iff hd_drop_conv_nth)
    next
      case False
      then show ?thesis by simp
    qed
    with ib False show ?thesis
      by (subst skip_spaces.simps) auto
  qed
qed

lemma extract_args_spec:
  "i \<le> length (c_string buffer) \<Longrightarrow> 0 \<in> set buffer \<Longrightarrow> length buffer \<le> length args \<Longrightarrow>
   j \<le> i \<Longrightarrow>
   extract_args buffer i args j =
     Inr (take j args @ drop i (c_string buffer) @
            drop (j + length (drop i (c_string buffer))) args,
          i + length (drop i (c_string buffer)),
          j + length (drop i (c_string buffer)))"
proof (induction buffer i args j rule: extract_args.induct)
  case (1 buffer i args j)
  let ?line = "c_string buffer"
  note cs = c_string_props [OF 1(3)]
  from 1(2) cs(1) have ib: "i < length buffer"
    by simp
  show ?case
  proof (cases "buffer ! i \<noteq> 0")
    case True
    with cs(2) 1(2) have il: "i < length ?line"
      by (cases "i = length ?line") auto
    then have "drop i ?line = ?line ! i # drop (Suc i) ?line"
      by (rule Cons_nth_drop_Suc [symmetric])
    then have d: "drop i ?line = buffer ! i # drop (i + 1) ?line"
      by (simp add: cs(3) [OF il])
    from ib 1(4,5) have jc: "j < length args"
      by simp
    let ?w = "drop (i + 1) ?line"
    have "extract_args buffer (i + 1) (args[j := buffer ! i]) (j + 1) =
          Inr (take (j + 1) (args[j := buffer ! i]) @ ?w @ drop (j + 1 + length ?w) (args[j := buffer ! i]),
               i + 1 + length ?w, j + 1 + length ?w)"
      using ib True jc il 1(3,4,5) by (intro 1(1)) simp_all
    also have "take (j + 1) (args[j := buffer ! i]) @ ?w @ drop (j + 1 + length ?w) (args[j := buffer ! i]) =
               take j args @ (buffer ! i # ?w) @ drop (j + length (buffer ! i # ?w)) args"
      using jc by (rule update_between)
    finally show ?thesis
      using ib True jc d il by (subst extract_args.simps) simp
  next
    case False
    with cs(4) [of i] 1(2) have "i = length ?line"
      by (cases "i < length ?line") auto
    with ib False show ?thesis
      by (subst extract_args.simps) auto
  qed
qed

lemma c_string_terminated:
  assumes "0 \<notin> set w"
  shows "c_string (w @ 0 # rest) = w"
  using assms unfolding c_string_def by (induction w) auto

lemma c_string_no_zero: "0 \<notin> set (c_string a)"
  by (auto simp: c_string_def dest: set_takeWhileD)

lemma terminate_at:
  assumes "length w < length a"
  shows "(w @ drop (length w) a)[length w := 0] = w @ 0 # drop (length w + 1) a"
proof -
  from assms have "drop (length w) a = a ! length w # drop (length w + 1) a"
    by (simp add: Cons_nth_drop_Suc)
  then show ?thesis
    by (simp add: list_update_append)
qed

lemma parse_command_spec:
  assumes "0 \<in> set buffer" "length buffer \<le> length cmd_init" "length buffer \<le> length args_init"
  shows "parse_command buffer cmd_init args_init =
     Inr (takeWhile (\<lambda>c. c \<noteq> 0x20) (c_string buffer) @ 0 #
            drop (length (takeWhile (\<lambda>c. c \<noteq> 0x20) (c_string buffer)) + 1) cmd_init,
          dropWhile (\<lambda>c. c = 0x20) (dropWhile (\<lambda>c. c \<noteq> 0x20) (c_string buffer)) @ 0 #
            drop (length (dropWhile (\<lambda>c. c = 0x20) (dropWhile (\<lambda>c. c \<noteq> 0x20) (c_string buffer))) + 1)
              args_init)"
proof -
  let ?line = "c_string buffer"
  let ?w = "takeWhile (\<lambda>c. c \<noteq> 0x20) ?line"
  let ?sp = "takeWhile (\<lambda>c. c = 0x20) (drop (length ?w) ?line)"
  let ?a = "drop (length ?w + length ?sp) ?line"
  note cs = c_string_props [OF assms(1)]
  have lw: "length ?w \<le> length ?line"
    by (rule length_takeWhile_le)
  have lsp: "length ?w + length ?sp \<le> length ?line"
    using length_takeWhile_le [of "\<lambda>c. c = 0x20" "drop (length ?w) ?line"] lw by simp
  have a_eq: "?a = dropWhile (\<lambda>c. c = 0x20) (dropWhile (\<lambda>c. c \<noteq> 0x20) ?line)"
    by (simp add: dropWhile_eq_drop [of _ ?line] dropWhile_eq_drop [of _ "drop (length ?w) ?line"]
        add.commute)
  have e1: "extract_command buffer 0 cmd_init 0 =
        Inr (?w @ drop (length ?w) cmd_init, length ?w, length ?w)"
    using extract_command_spec [of 0 buffer cmd_init 0] assms by simp
  have e2: "skip_spaces buffer (length ?w) = Inr (length ?w + length ?sp)"
    using skip_spaces_spec [of "length ?w" buffer] assms lw by simp
  have e3: "extract_args buffer (length ?w + length ?sp) args_init 0 =
        Inr (?a @ drop (length ?a) args_init, length ?w + length ?sp + length ?a, length ?a)"
    using extract_args_spec [of "length ?w + length ?sp" buffer args_init 0] assms lsp by simp
  have l1: "length ?w < length cmd_init"
    using lw cs(1) assms(2) by simp
  have "length ?a \<le> length ?line"
    by simp
  then have l3: "length ?a < length args_init"
    using cs(1) assms(3) by simp
  have "parse_command buffer cmd_init args_init =
        Inr ((?w @ drop (length ?w) cmd_init)[length ?w := 0],
             (?a @ drop (length ?a) args_init)[length ?a := 0])"
    using l1 l3 by (simp add: parse_command_def e1 e2 e3)
  then have "parse_command buffer cmd_init args_init =
        Inr (?w @ 0 # drop (length ?w + 1) cmd_init, ?a @ 0 # drop (length ?a + 1) args_init)"
    by (simp only: terminate_at [OF l1] terminate_at [OF l3])
  then show ?thesis
    by (simp only: a_eq)
qed

lemma printable_not_control:
  fixes c :: "8 word"
  assumes "32 \<le>s c"
  shows "c \<noteq> 0x0A" and "c \<noteq> 0x08" and "c \<noteq> 0"
  using assms by (auto simp: word_sle_eq)

lemma read_line_printable:
  "cursor_ok s \<Longrightarrow> length buffer = 256 \<Longrightarrow> \<forall>c \<in> set line. 32 \<le>s c \<and> c \<le>s 126 \<Longrightarrow>
   pos + length line \<le> 255 \<Longrightarrow>
   \<exists>s'. put_chars (line @ [0x0A]) s = Inr s' \<and> cursor_ok s' \<and>
        terminal_color s' = terminal_color s \<and>
        read_line (line @ 0x0A # rest) (s, buffer, int pos) =
          Some (Inr ((s', take pos buffer @ line @ 0 # drop (pos + length line + 1) buffer,
                      int (pos + length line)), rest))"
proof (induction line arbitrary: s buffer pos)
  case Nil
  from putchar_cursor_ok [OF Nil(1), of "0x0A"] obtain s' where
    s': "terminal_putchar 0x0A s = Inr s'" "cursor_ok s'" "terminal_color s' = terminal_color s"
    by blast
  from Nil(2,4) have "buffer[pos := 0] = take pos buffer @ 0 # drop (pos + 1) buffer"
    by (simp add: upd_conv_take_nth_drop)
  with s' Nil(2,4) show ?case
    by (simp add: line_key_def)
next
  case (Cons c line)
  from Cons.prems(3) have c: "32 \<le>s c" "c \<le>s 126"
    by simp_all
  note nc = printable_not_control [OF c(1)]
  from Cons.prems(4) have p: "pos < 255"
    by simp
  from putchar_cursor_ok [OF Cons.prems(1), of c] obtain s1 where
    s1: "terminal_putchar c s = Inr s1" "cursor_ok s1" "terminal_color s1 = terminal_color s"
    by blast
  have step: "line_key c (s, buffer, int pos) = Inr (False, s1, buffer[pos := c], int pos + 1)"
    using c nc p s1(1) Cons.prems(2) by (simp add: line_key_def)
  have "\<exists>s'. put_chars (line @ [0x0A]) s1 = Inr s' \<and> cursor_ok s' \<and>
        terminal_color s' = terminal_color s1 \<and>
        read_line (line @ 0x0A # rest) (s1, buffer[pos := c], int (pos + 1)) =
          Some (Inr ((s', take (pos + 1) (buffer[pos := c]) @ line @ 0 #
                            drop (pos + 1 + length line + 1) (buffer[pos := c]),
                      int (pos + 1 + length line)), rest))"
    using s1(2) Cons.prems by (intro Cons.IH) simp_all
  then obtain s' where
    s': "put_chars (line @ [0x0A]) s1 = Inr s'" "cursor_ok s'" "terminal_color s' = terminal_color s1"
        "read_line (line @ 0x0A # rest) (s1, buffer[pos := c], int (pos + 1)) =
          Some (Inr ((s', take (pos + 1) (buffer[pos := c]) @ line @ 0 #
                            drop (pos + 1 + length line + 1) (buffer[pos := c]),
                      int (pos + 1 + length line)), rest))"
    by blast
  from p Cons.prems(2) have "take (pos + 1) (buffer[pos := c]) = take pos buffer @ [c]"
    by (simp add: take_Suc_conv_app_nth)
  with s' s1 step show ?case
    by (simp add: add.commute)
qed

section \<open>The shell: backspace, line index, tokens\<close>

lemma col_pred:
  fixes c :: "32 word"
  assumes "c \<noteq> 0"
  shows "unat (c - 1) = unat c - 1" and "0 < unat c"
  using assms by (simp_all add: unat_minus_one unat_gt_0)

lemma backspace_closed:
  assumes "0 < pos" and "cursor_ok s"
  shows "line_key 0x08 (s, buffer, pos) =
     Inr (False,
          (if terminal_col s = 0 then s
           else s\<lparr>terminal_col := terminal_col s - 1,
                  vga_buffer := (vga_buffer s)
                    (unat (terminal_row s) * 80 + (unat (terminal_col s) - 1) :=
                       push_bit 8 (ucast (terminal_color s)) OR 0x20)\<rparr>),
          buffer, pos - 1)"
proof (cases "terminal_col s = 0")
  case True
  with assms(1) show ?thesis
    by (simp add: line_key_def)
next
  case False
  let ?s1 = "s\<lparr>terminal_col := terminal_col s - 1\<rparr>"
  from assms(2) have r: "unat (terminal_row s) < 25" and c: "unat (terminal_col s) < 80"
    by (simp_all add: cursor_ok_def VGA_HEIGHT_def VGA_WIDTH_def)
  from c have "cursor_ok ?s1"
    using assms(2) col_pred [OF False] by (simp add: cursor_ok_def VGA_HEIGHT_def VGA_WIDTH_def)
  from cursor_index [OF this]
  have idx: "unat (terminal_row s * 80 + (terminal_col s - 1)) =
             unat (terminal_row s) * 80 + (unat (terminal_col s) - 1)"
    by (simp add: col_pred(1) [OF False])
  from r c have "unat (terminal_row s) * 80 + (unat (terminal_col s) - 1) < 2000"
    by simp
  with False assms(1) show ?thesis
    by (simp add: line_key_def word_gt_0 Let_def VGA_WIDTH_def VGA_HEIGHT_def idx vga_store_def
        blank_entry)
qed

text \<open>
  Claim C7. In the line-read loop a backspace with \<open>pos > 0\<close>, from a terminal that
  satisfies the cursor invariant, does not leave the loop, leaves the line buffer as it
  is and decrements \<open>pos\<close> by one; when the column of the cursor is not zero it also
  moves the cursor back one column and stores a space in the current colour in the cell
  it now points to, and when the column is zero it leaves the terminal unchanged. A
  backspace with \<open>pos = 0\<close> changes nothing: terminal, buffer and \<open>pos\<close> are returned
  as they were.
\<close>

theorem backspace_key:
  "(0 < pos \<and> cursor_ok s \<longrightarrow>
      line_key (byte CHR 0x08) (s, buffer, pos) =
        Inr (False,
             (if terminal_col s = 0 then s
              else s\<lparr>terminal_col := terminal_col s - 1,
                     vga_buffer := (vga_buffer s)
                       (unat (terminal_row s) * 80 + (unat (terminal_col s) - 1) :=
                          push_bit 8 (ucast (terminal_color s)) OR ucast (byte CHR '' ''))\<rparr>),
             buffer, pos - 1)) \<and>
   (pos = 0 \<longrightarrow> line_key (byte CHR 0x08) (s, buffer, pos) = Inr (False, s, buffer, pos))"
proof -
  have "line_key 0x08 (s, buffer, 0) = Inr (False, s, buffer, 0)"
    by (simp add: line_key_def word_sle_eq)
  then show ?thesis
    by (simp add: backspace_closed)
qed

text \<open>A backspace at row 2, column 10, with three characters typed and with none.\<close>

theorem backspace_key_witness:
  "(0 :: int) < 3 \<and>
   cursor_ok \<lparr>vga_buffer = \<lambda>i. 0x0F41, terminal_row = 2, terminal_col = 10, terminal_color = 0x0F\<rparr> \<and>
   line_key (byte CHR 0x08)
     (\<lparr>vga_buffer = \<lambda>i. 0x0F41, terminal_row = 2, terminal_col = 10, terminal_color = 0x0F\<rparr>,
      cstr ''abcd'', 3) =
   Inr (False,
        \<lparr>vga_buffer = (\<lambda>i. 0x0F41)(169 := 0x0F20), terminal_row = 2, terminal_col = 9,
          terminal_color = 0x0F\<rparr>,
        cstr ''abcd'', 2) \<and>
   line_key (byte CHR 0x08)
     (\<lparr>vga_buffer = \<lambda>i. 0x0F41, terminal_row = 2, terminal_col = 10, terminal_color = 0x0F\<rparr>,
      cstr ''abcd'', 0) =
   Inr (False,
        \<lparr>vga_buffer = \<lambda>i. 0x0F41, terminal_row = 2, terminal_col = 10, terminal_color = 0x0F\<rparr>,
        cstr ''abcd'', 0)"
proof -
  let ?s = "\<lparr>vga_buffer = \<lambda>i. 0x0F41, terminal_row = 2, terminal_col = 10, terminal_color = 0x0F\<rparr> :: terminal"
  have ok: "cursor_ok ?s"
    by (simp add: cursor_ok_def VGA_HEIGHT_def VGA_WIDTH_def)
  have v: "push_bit 8 (ucast (0x0F :: 8 word)) OR ucast (byte CHR '' '') = (0x0F20 :: 16 word)"
    by simp
  from backspace_key [of 3 ?s "cstr ''abcd''"] backspace_key [of 0 ?s "cstr ''abcd''"] ok
  show ?thesis
    by (simp add: v)
qed

lemma line_key_step:
  assumes "cursor_ok s" "length buffer = 256" "0 \<le> pos" "pos \<le> 255"
  shows "\<exists>left s' buffer' pos'.
           line_key c (s, buffer, pos) = Inr (left, s', buffer', pos') \<and>
           cursor_ok s' \<and> length buffer' = 256 \<and> 0 \<le> pos' \<and> pos' \<le> 255 \<and>
           (pos' = pos \<or> pos' = pos - 1 \<and> 0 < pos \<or> pos' = pos + 1 \<and> pos < 255) \<and>
           (left \<longrightarrow> buffer' ! nat pos' = 0) \<and>
           (left \<longrightarrow> pos' = pos) \<and>
           buffer' = (if left then buffer[nat pos := 0]
                      else if pos' = pos + 1 then buffer[nat pos := c]
                      else buffer) \<and>
           (\<not> left \<longrightarrow> buffer' ! 255 = buffer ! 255)"
proof -
  from assms(2,3,4) have np: "nat pos < length buffer"
    by simp
  consider (newline) "c = 0x0A"
    | (backspace) "c \<noteq> 0x0A" "c = 0x08" "0 < pos"
    | (printable) "c \<noteq> 0x0A" "\<not> (c = 0x08 \<and> 0 < pos)" "32 \<le>s c \<and> c \<le>s 126 \<and> pos < 255"
    | (other) "c \<noteq> 0x0A" "\<not> (c = 0x08 \<and> 0 < pos)" "\<not> (32 \<le>s c \<and> c \<le>s 126 \<and> pos < 255)"
    by blast
  then show ?thesis
  proof cases
    case newline
    from putchar_cursor_ok [OF assms(1), of "0x0A"] obtain s' where
      s': "terminal_putchar 0x0A s = Inr s'" "cursor_ok s'"
      by blast
    have "line_key c (s, buffer, pos) = Inr (True, s', buffer[nat pos := 0], pos)"
      using newline s'(1) assms(3) np by (simp add: line_key_def)
    moreover have "buffer[nat pos := 0] ! nat pos = 0"
      using np by simp
    ultimately show ?thesis
      using s'(2) assms(2,3,4) by auto
  next
    case backspace
    let ?s' = "if terminal_col s = 0 then s
           else s\<lparr>terminal_col := terminal_col s - 1,
                  vga_buffer := (vga_buffer s)
                    (unat (terminal_row s) * 80 + (unat (terminal_col s) - 1) :=
                       push_bit 8 (ucast (terminal_color s)) OR 0x20)\<rparr>"
    have "cursor_ok (s\<lparr>terminal_col := terminal_col s - 1,
                  vga_buffer := (vga_buffer s)
                    (unat (terminal_row s) * 80 + (unat (terminal_col s) - 1) :=
                       push_bit 8 (ucast (terminal_color s)) OR 0x20)\<rparr>)"
      if "terminal_col s \<noteq> 0"
      using assms(1) col_pred [OF that] by (auto simp: cursor_ok_def)
    with assms(1) have ok: "cursor_ok ?s'"
      by simp
    have "line_key c (s, buffer, pos) = Inr (False, ?s', buffer, pos - 1)"
      using backspace(2) backspace_closed [OF backspace(3) assms(1)] by simp
    then show ?thesis
      using ok backspace(3) assms(2,4) by auto
  next
    case printable
    from putchar_cursor_ok [OF assms(1), of c] obtain s' where
      s': "terminal_putchar c s = Inr s'" "cursor_ok s'"
      by blast
    from printable(3) have "c \<noteq> 0x08"
      using printable_not_control(2) [of c] by blast
    then have "line_key c (s, buffer, pos) = Inr (False, s', buffer[nat pos := c], pos + 1)"
      using printable s'(1) assms(3) np by (simp add: line_key_def)
    moreover from printable(3) assms(3) have "nat pos \<noteq> 255"
      by linarith
    ultimately show ?thesis
      using s'(2) printable(3) assms(2,3) by auto
  next
    case other
    then have "line_key c (s, buffer, pos) = Inr (False, s, buffer, pos)"
      by (auto simp: line_key_def)
    then show ?thesis
      using assms by auto
  qed
qed

lemma read_line_bound:
  "cursor_ok s \<Longrightarrow> length buffer = 256 \<Longrightarrow> 0 \<le> pos \<Longrightarrow> pos \<le> 255 \<Longrightarrow>
   read_line keys (s, buffer, pos) = None \<or>
   (\<exists>s' buffer' pos' rest.
      read_line keys (s, buffer, pos) = Some (Inr ((s', buffer', pos'), rest)) \<and>
      cursor_ok s' \<and> length buffer' = 256 \<and> 0 \<le> pos' \<and> pos' \<le> 255 \<and>
      buffer' ! nat pos' = 0 \<and> (buffer' ! 255 = buffer ! 255 \<or> pos' = 255))"
proof (induction keys arbitrary: s buffer pos)
  case Nil
  show ?case by simp
next
  case (Cons c keys)
  from line_key_step [OF Cons.prems, of c] obtain left s1 buffer1 pos1 where
    st: "line_key c (s, buffer, pos) = Inr (left, s1, buffer1, pos1)"
        "cursor_ok s1" "length buffer1 = 256" "0 \<le> pos1" "pos1 \<le> 255"
        "left \<longrightarrow> buffer1 ! nat pos1 = 0"
        "pos1 = pos \<or> pos1 = pos - 1 \<and> 0 < pos \<or> pos1 = pos + 1 \<and> pos < 255"
        "buffer1 = (if left then buffer[nat pos := 0]
                    else if pos1 = pos + 1 then buffer[nat pos := c]
                    else buffer)"
        "\<not> left \<longrightarrow> buffer1 ! 255 = buffer ! 255"
        "left \<longrightarrow> pos1 = pos"
    by blast
  show ?case
  proof (cases left)
    case True
    with st(8,10) have p: "pos1 = pos" and b: "buffer1 = buffer[nat pos := 0]"
      by simp_all
    have "buffer1 ! 255 = buffer ! 255 \<or> pos1 = 255"
    proof (cases "pos = 255")
      case True
      with p show ?thesis by simp
    next
      case False
      with Cons.prems(3) have "nat pos \<noteq> 255"
        by simp
      with b show ?thesis
        by simp
    qed
    with True st show ?thesis
      by simp
  next
    case False
    with st(9) have "buffer1 ! 255 = buffer ! 255"
      by simp
    with False st(1) Cons.IH [OF st(2,3,4,5)] show ?thesis
      by auto
  qed
qed

text \<open>
  Claim C5, as amended. The index of the line buffer stays between 0 and 255, both
  included. From a terminal that satisfies the cursor invariant, a buffer of 256 bytes
  and \<open>0 \<le> pos \<le> 255\<close>, the loop body returns for every character, without a fault,
  a state with the same properties; \<open>pos\<close> is unchanged, or decremented by one from a
  positive value, or incremented by one from a value below 255; and when the loop is
  left the terminator has been stored at index \<open>pos\<close>, inside the buffer. The buffer
  changes in two ways only: a step that increments \<open>pos\<close> stores the character at the
  old index \<open>pos\<close>, which is below 255, and the step that leaves the loop stores the
  terminator at index \<open>pos\<close>; so a step that stays in the loop leaves slot 255 as it
  was. The loop, started with \<open>pos = 0\<close>, either is still waiting for a character or
  has ended without a fault with \<open>0 \<le> pos \<le> 255\<close> and a terminated buffer, in which
  slot 255 is as it was unless \<open>pos = 255\<close>, where it holds the terminator.
\<close>

theorem line_pos_bound:
  assumes "cursor_ok s" and "length buffer = 256" and "0 \<le> pos" and "pos \<le> 255"
  shows "(\<exists>left s' buffer' pos'.
           line_key c (s, buffer, pos) = Inr (left, s', buffer', pos') \<and>
           cursor_ok s' \<and> length buffer' = 256 \<and> 0 \<le> pos' \<and> pos' \<le> 255 \<and>
           (pos' = pos \<or> pos' = pos - 1 \<and> 0 < pos \<or> pos' = pos + 1 \<and> pos < 255) \<and>
           (left \<longrightarrow> buffer' ! nat pos' = 0) \<and>
           (left \<longrightarrow> pos' = pos) \<and>
           buffer' = (if left then buffer[nat pos := 0]
                      else if pos' = pos + 1 then buffer[nat pos := c]
                      else buffer) \<and>
           (\<not> left \<longrightarrow> buffer' ! 255 = buffer ! 255)) \<and>
         (read_line keys (s, buffer, 0) = None \<or>
          (\<exists>s' buffer' pos' rest.
             read_line keys (s, buffer, 0) = Some (Inr ((s', buffer', pos'), rest)) \<and>
             cursor_ok s' \<and> length buffer' = 256 \<and> 0 \<le> pos' \<and> pos' \<le> 255 \<and>
             buffer' ! nat pos' = 0 \<and> (buffer' ! 255 = buffer ! 255 \<or> pos' = 255)))"
  using line_key_step [OF assms, of c] read_line_bound [OF assms(1,2), of 0 keys]
  by simp

text \<open>The step from 254 to 255.\<close>

theorem line_pos_bound_witness:
  "cursor_ok \<lparr>vga_buffer = \<lambda>i. 0, terminal_row = 0, terminal_col = 0, terminal_color = 0x0F\<rparr> \<and>
   length (replicate 256 (0 :: 8 word)) = 256 \<and> (0 :: int) \<le> 254 \<and> (254 :: int) \<le> 255 \<and>
   (\<exists>left s' buffer' pos'.
      line_key (byte CHR ''a'')
        (\<lparr>vga_buffer = \<lambda>i. 0, terminal_row = 0, terminal_col = 0, terminal_color = 0x0F\<rparr>,
         replicate 256 0, 254) = Inr (left, s', buffer', pos') \<and>
      0 \<le> pos' \<and> pos' \<le> 255 \<and>
      buffer' = (if left then (replicate 256 0)[nat 254 := 0]
                 else if pos' = 254 + 1 then (replicate 256 0)[nat 254 := byte CHR ''a'']
                 else replicate 256 0))"
proof -
  let ?s = "\<lparr>vga_buffer = \<lambda>i. 0, terminal_row = 0, terminal_col = 0, terminal_color = 0x0F\<rparr> :: terminal"
  have ok: "cursor_ok ?s"
    by (simp add: cursor_ok_def VGA_HEIGHT_def VGA_WIDTH_def)
  have h: "length (replicate 256 (0 :: 8 word)) = 256" "(0 :: int) \<le> 254" "(254 :: int) \<le> 255"
    by simp_all
  from line_pos_bound [OF ok h, of "byte CHR ''a''" "[]"] ok h
  show ?thesis
    by blast
qed

text \<open>
  The claim as stated fails: after 255 printable characters and a newline the loop ends
  with \<open>pos = 255\<close>, which is not strictly below 255.
\<close>

theorem line_pos_reaches_255:
  "\<exists>s' buffer'.
     read_line (replicate 255 (byte CHR ''a'') @ [byte CHR 0x0A])
       (\<lparr>vga_buffer = \<lambda>i. 0, terminal_row = 0, terminal_col = 0, terminal_color = 0x0F\<rparr>,
        replicate 256 0, 0) =
     Some (Inr ((s', buffer', 255), []))"
proof -
  let ?s = "\<lparr>vga_buffer = \<lambda>i. 0, terminal_row = 0, terminal_col = 0, terminal_color = 0x0F\<rparr> :: terminal"
  have ok: "cursor_ok ?s"
    by (simp add: cursor_ok_def VGA_HEIGHT_def VGA_WIDTH_def)
  have "\<forall>c \<in> set (replicate 255 (byte CHR ''a'')). 32 \<le>s c \<and> c \<le>s 126"
    by (simp add: word_sle_eq)
  from read_line_printable [OF ok _ this, of "replicate 256 0" 0 "[]"]
  show ?thesis
    by auto
qed

lemma prompt_cursor_ok:
  assumes "cursor_ok s"
  shows "\<exists>s1. terminal_writestring (cstr ''shell> '' @ [0])
                 (terminal_setcolor (make_color LIGHT_BLUE BLACK) s) = Inr s1 \<and>
              cursor_ok (terminal_setcolor (make_color WHITE BLACK) s1)"
proof -
  from assms have "cursor_ok (terminal_setcolor (make_color LIGHT_BLUE BLACK) s)"
    by (simp add: terminal_setcolor_def cursor_ok_def)
  from writestring_cursor_ok [OF this, of "cstr ''shell> '' @ [0]"] obtain s1 where
    "terminal_writestring (cstr ''shell> '' @ [0])
       (terminal_setcolor (make_color LIGHT_BLUE BLACK) s) = Inr s1" "cursor_ok s1"
    by blast
  then show ?thesis
    by (simp add: terminal_setcolor_def cursor_ok_def)
qed

lemma shell_turn_line:
  assumes "cursor_ok s" "length buffer = 256" "\<forall>c \<in> set line. 32 \<le>s c \<and> c \<le>s 126"
    "length line \<le> 255"
  shows "\<exists>s1 s2.
      terminal_writestring (cstr ''shell> '' @ [0])
        (terminal_setcolor (make_color LIGHT_BLUE BLACK) s) = Inr s1 \<and>
      cursor_ok s2 \<and>
      read_line (line @ 0x0A # rest) (terminal_setcolor (make_color WHITE BLACK) s1, buffer, 0) =
        Some (Inr ((s2, line @ 0 # drop (length line + 1) buffer, int (length line)), rest))"
proof -
  from prompt_cursor_ok [OF assms(1)] obtain s1 where
    s1: "terminal_writestring (cstr ''shell> '' @ [0])
           (terminal_setcolor (make_color LIGHT_BLUE BLACK) s) = Inr s1"
        "cursor_ok (terminal_setcolor (make_color WHITE BLACK) s1)"
    by blast
  from read_line_printable [OF s1(2) assms(2,3), of 0 rest] assms(4) s1(1)
  show ?thesis
    by auto
qed

lemma dispatch_echo: "dispatch (cstr ''echo'' @ 0 # rest) = Inr Echo"
  by (simp add: dispatch_def is_command_def cstr_def)

lemma cmd_echo_closed:
  assumes "0 \<notin> set text"
  shows "cmd_echo (text @ 0 # rest) s = put_chars (text @ [0x0A]) s"
  using assms by (simp add: cmd_echo_def writestring_terminated put_chars_append split: sum.splits)

lemma echo_line_tokens:
  "takeWhile (\<lambda>c. c \<noteq> 0x20) (cstr ''echo hello world'') = cstr ''echo''"
  "dropWhile (\<lambda>c. c = 0x20) (dropWhile (\<lambda>c. c \<noteq> 0x20) (cstr ''echo hello world'')) =
   cstr ''hello world''"
  "\<forall>c \<in> set (cstr ''echo hello world''). 32 \<le>s c \<and> c \<le>s 126"
  "0 \<notin> set (cstr ''echo hello world'')" "0 \<notin> set (cstr ''hello world'')"
  "0 \<notin> set (cstr ''echo'')"
  by (simp_all add: cstr_def word_sle_eq)

lemma shell_turn_echo:
  assumes "cursor_ok s" "length buffer = 256" "length cmd_init = 256" "length args_init = 256"
  shows "\<exists>s' buffer' cmd args.
      shell_turn (cstr ''echo hello world'' @ byte CHR 0x0A # rest) s buffer cmd_init args_init =
        Some (Inr (s', buffer', rest, Some (Echo, cmd, args))) \<and>
      c_string buffer' = cstr ''echo hello world'' \<and>
      c_string cmd = cstr ''echo'' \<and> c_string args = cstr ''hello world'' \<and>
      cmd_echo args s' = put_chars (cstr ''hello world'' @ [byte CHR 0x0A]) s' \<and>
      (\<exists>s''. cmd_echo args s' = Inr s'')"
proof -
  let ?line = "cstr ''echo hello world''"
  let ?buffer = "?line @ 0 # drop (length ?line + 1) buffer"
  have len: "length ?line = 16"
    by (simp add: cstr_def)
  from shell_turn_line [OF assms(1,2) echo_line_tokens(3), of rest] len obtain s1 s2 where
    s: "terminal_writestring (cstr ''shell> '' @ [0])
          (terminal_setcolor (make_color LIGHT_BLUE BLACK) s) = Inr s1"
       "cursor_ok s2"
       "read_line (?line @ 0x0A # rest) (terminal_setcolor (make_color WHITE BLACK) s1, buffer, 0) =
          Some (Inr ((s2, ?buffer, 16), rest))"
    by auto
  have cb: "c_string ?buffer = ?line"
    using echo_line_tokens(4) by (rule c_string_terminated)
  have "0 \<in> set ?buffer" "length ?buffer \<le> length cmd_init" "length ?buffer \<le> length args_init"
    using assms(2,3,4) len by simp_all
  from parse_command_spec [OF this]
  have p: "parse_command ?buffer cmd_init args_init =
        Inr (cstr ''echo'' @ 0 # drop (length (cstr ''echo'') + 1) cmd_init,
             cstr ''hello world'' @ 0 # drop (length (cstr ''hello world'') + 1) args_init)"
    by (simp only: cb echo_line_tokens(1,2))
  let ?cmd = "cstr ''echo'' @ 0 # drop (length (cstr ''echo'') + 1) cmd_init"
  let ?args = "cstr ''hello world'' @ 0 # drop (length (cstr ''hello world'') + 1) args_init"
  have turn: "shell_turn (?line @ byte CHR 0x0A # rest) s buffer cmd_init args_init =
        Some (Inr (s2, ?buffer, rest, Some (Echo, ?cmd, ?args)))"
  proof -
    have b: "byte CHR 0x0A = 0x0A" and n: "((16 :: int) = 0) = False"
      by simp_all
    show ?thesis
      by (simp only: shell_turn_def b s(1) s(3) n p dispatch_echo sum.case option.case prod.case
          if_False)
  qed
  have e: "cmd_echo ?args s2 = put_chars (cstr ''hello world'' @ [byte CHR 0x0A]) s2"
    using cmd_echo_closed [OF echo_line_tokens(5)] by simp
  have "0x0A \<in> set (cstr ''hello world'' @ [byte CHR 0x0A])"
    by simp
  from writestring_cursor_ok [OF s(2), of ?args] obtain s3 where
    s3: "terminal_writestring ?args s2 = Inr s3" "cursor_ok s3"
    by blast
  from putchar_cursor_ok [OF s3(2), of "0x0A"] s3(1) have "\<exists>s''. cmd_echo ?args s2 = Inr s''"
    by (auto simp: cmd_echo_def)
  with turn e cb c_string_terminated [OF echo_line_tokens(6)]
    c_string_terminated [OF echo_line_tokens(5)]
  show ?thesis
    by blast
qed

lemma shell_turn_empty:
  assumes "cursor_ok s" "length buffer = 256"
  shows "\<exists>s' buffer'.
      shell_turn (byte CHR 0x0A # rest) s buffer cmd_init args_init =
        Some (Inr (s', buffer', rest, None))"
proof -
  from shell_turn_line [OF assms, of "[]" rest] obtain s1 s2 where
    "terminal_writestring (cstr ''shell> '' @ [0])
          (terminal_setcolor (make_color LIGHT_BLUE BLACK) s) = Inr s1"
    "read_line (0x0A # rest) (terminal_setcolor (make_color WHITE BLACK) s1, buffer, 0) =
          Some (Inr ((s2, 0 # drop 1 buffer, 0), rest))"
    by auto
  then show ?thesis
    by (simp add: shell_turn_def)
qed

lemma parse_command_tokens:
  assumes "0 \<in> set buffer" "length buffer = 256" "length cmd_init = 256" "length args_init = 256"
  shows "\<exists>cmd args.
      parse_command buffer cmd_init args_init = Inr (cmd, args) \<and>
      length cmd = 256 \<and> length args = 256 \<and> 0 \<in> set cmd \<and> 0 \<in> set args \<and>
      c_string cmd = takeWhile (\<lambda>c. c \<noteq> byte CHR '' '') (c_string buffer) \<and>
      c_string args =
        dropWhile (\<lambda>c. c = byte CHR '' '') (dropWhile (\<lambda>c. c \<noteq> byte CHR '' '') (c_string buffer))"
proof -
  let ?w = "takeWhile (\<lambda>c. c \<noteq> 0x20) (c_string buffer)"
  let ?a = "dropWhile (\<lambda>c. c = 0x20) (dropWhile (\<lambda>c. c \<noteq> 0x20) (c_string buffer))"
  note cs = c_string_props(1) [OF assms(1)]
  have p: "parse_command buffer cmd_init args_init =
        Inr (?w @ 0 # drop (length ?w + 1) cmd_init, ?a @ 0 # drop (length ?a + 1) args_init)"
    using assms by (intro parse_command_spec) simp_all
  have "length ?w \<le> length (c_string buffer)"
    by (rule length_takeWhile_le)
  with cs assms have lw: "length ?w < 256"
    by simp
  have "length ?a \<le> length (dropWhile (\<lambda>c. c \<noteq> 0x20) (c_string buffer))"
    by (rule length_dropWhile_le)
  also have "\<dots> \<le> length (c_string buffer)"
    by (rule length_dropWhile_le)
  finally have la: "length ?a < 256"
    using cs assms by simp
  have "set ?w \<subseteq> set (c_string buffer)"
    by (rule set_takeWhileD [THEN conjunct1, THEN subsetI])
  then have zw: "0 \<notin> set ?w"
    using c_string_no_zero [of buffer] by blast
  have "set ?a \<subseteq> set (c_string buffer)"
    by (meson set_dropWhileD subsetI)
  then have za: "0 \<notin> set ?a"
    using c_string_no_zero [of buffer] by blast
  from lw la assms show ?thesis
    by (simp add: p c_string_terminated [OF zw] c_string_terminated [OF za])
qed

text \<open>
  Claim C6. For a line buffer of 256 bytes that holds a terminated string, and arrays
  \<open>cmd\<close> and \<open>args\<close> of 256 bytes with any contents, the parsing returns without a
  fault two terminated arrays: \<open>cmd\<close> holds the characters of the line before its first
  space, \<open>args\<close> holds what follows the run of spaces after them. From a terminal that
  satisfies the cursor invariant, the characters \<open>echo hello world\<close> and a newline make
  the shell choose \<open>echo\<close> with the command token \<open>echo\<close> and the argument
  \<open>hello world\<close>, and \<open>cmd_echo\<close> on that argument returns and is the emission of
  \<open>hello world\<close> followed by a newline; a newline alone makes the shell take the
  \<open>continue\<close>, with nothing parsed or dispatched.
\<close>

theorem shell_tokenize:
  assumes "length buffer = 256" and "length cmd_init = 256" and "length args_init = 256"
  shows "(0 \<in> set buffer \<longrightarrow>
            (\<exists>cmd args.
               parse_command buffer cmd_init args_init = Inr (cmd, args) \<and>
               length cmd = 256 \<and> length args = 256 \<and> 0 \<in> set cmd \<and> 0 \<in> set args \<and>
               c_string cmd = takeWhile (\<lambda>c. c \<noteq> byte CHR '' '') (c_string buffer) \<and>
               c_string args =
                 dropWhile (\<lambda>c. c = byte CHR '' '')
                   (dropWhile (\<lambda>c. c \<noteq> byte CHR '' '') (c_string buffer)))) \<and>
         (cursor_ok s \<longrightarrow>
            (\<exists>s' buffer' cmd args.
               shell_turn (cstr ''echo hello world'' @ byte CHR 0x0A # rest) s buffer cmd_init args_init =
                 Some (Inr (s', buffer', rest, Some (Echo, cmd, args))) \<and>
               c_string buffer' = cstr ''echo hello world'' \<and>
               c_string cmd = cstr ''echo'' \<and> c_string args = cstr ''hello world'' \<and>
               cmd_echo args s' = put_chars (cstr ''hello world'' @ [byte CHR 0x0A]) s' \<and>
               (\<exists>s''. cmd_echo args s' = Inr s'')) \<and>
            (\<exists>s' buffer'.
               shell_turn (byte CHR 0x0A # rest) s buffer cmd_init args_init =
                 Some (Inr (s', buffer', rest, None))))"
proof (intro conjI impI)
  assume "0 \<in> set buffer"
  then show "\<exists>cmd args.
               parse_command buffer cmd_init args_init = Inr (cmd, args) \<and>
               length cmd = 256 \<and> length args = 256 \<and> 0 \<in> set cmd \<and> 0 \<in> set args \<and>
               c_string cmd = takeWhile (\<lambda>c. c \<noteq> byte CHR '' '') (c_string buffer) \<and>
               c_string args =
                 dropWhile (\<lambda>c. c = byte CHR '' '')
                   (dropWhile (\<lambda>c. c \<noteq> byte CHR '' '') (c_string buffer))"
    using assms by (rule parse_command_tokens)
next
  assume "cursor_ok s"
  then show "\<exists>s' buffer' cmd args.
               shell_turn (cstr ''echo hello world'' @ byte CHR 0x0A # rest) s buffer cmd_init args_init =
                 Some (Inr (s', buffer', rest, Some (Echo, cmd, args))) \<and>
               c_string buffer' = cstr ''echo hello world'' \<and>
               c_string cmd = cstr ''echo'' \<and> c_string args = cstr ''hello world'' \<and>
               cmd_echo args s' = put_chars (cstr ''hello world'' @ [byte CHR 0x0A]) s' \<and>
               (\<exists>s''. cmd_echo args s' = Inr s'')"
    using assms by (rule shell_turn_echo)
next
  assume "cursor_ok s"
  then show "\<exists>s' buffer'.
               shell_turn (byte CHR 0x0A # rest) s buffer cmd_init args_init =
                 Some (Inr (s', buffer', rest, None))"
    using assms(1) by (rule shell_turn_empty)
qed

text \<open>
  The parsing of a line with two spaces between its tokens, and the \<open>echo\<close> line typed
  at the bottom of the screen over arrays full of the letter \<open>U\<close>.
\<close>

theorem shell_tokenize_witness:
  "length (cstr ''box  now'' @ replicate 248 (0 :: 8 word)) = 256 \<and>
   length (replicate 256 (byte CHR ''U'')) = 256 \<and>
   0 \<in> set (cstr ''box  now'' @ replicate 248 (0 :: 8 word)) \<and>
   cursor_ok \<lparr>vga_buffer = \<lambda>i. 0, terminal_row = 24, terminal_col = 70, terminal_color = 7\<rparr> \<and>
   (\<exists>cmd args.
      parse_command (cstr ''box  now'' @ replicate 248 0)
        (replicate 256 (byte CHR ''U'')) (replicate 256 (byte CHR ''U'')) = Inr (cmd, args) \<and>
      c_string cmd = cstr ''box'' \<and> c_string args = cstr ''now'') \<and>
   (\<exists>s' buffer' cmd args.
      shell_turn (cstr ''echo hello world'' @ byte CHR 0x0A # cstr ''help'')
        \<lparr>vga_buffer = \<lambda>i. 0, terminal_row = 24, terminal_col = 70, terminal_color = 7\<rparr>
        (cstr ''box  now'' @ replicate 248 0)
        (replicate 256 (byte CHR ''U'')) (replicate 256 (byte CHR ''U'')) =
      Some (Inr (s', buffer', cstr ''help'', Some (Echo, cmd, args))) \<and>
      c_string args = cstr ''hello world'')"
proof -
  let ?s = "\<lparr>vga_buffer = \<lambda>i. 0, terminal_row = 24, terminal_col = 70, terminal_color = 7\<rparr> :: terminal"
  let ?b = "cstr ''box  now'' @ replicate 248 (0 :: 8 word)"
  let ?u = "replicate 256 (byte CHR ''U'')"
  have ok: "cursor_ok ?s"
    by (simp add: cursor_ok_def VGA_HEIGHT_def VGA_WIDTH_def)
  have l: "length ?b = 256" "length ?u = 256"
    by (simp_all add: cstr_def)
  have z: "0 \<in> set ?b"
    by simp
  have t: "takeWhile (\<lambda>c. c \<noteq> byte CHR '' '') (c_string ?b) = cstr ''box''"
    "dropWhile (\<lambda>c. c = byte CHR '' '') (dropWhile (\<lambda>c. c \<noteq> byte CHR '' '') (c_string ?b)) =
     cstr ''now''"
    by (simp_all add: c_string_def cstr_def)
  from shell_tokenize [OF l(1) l(2) l(2), of ?s "cstr ''help''"] ok z
  show ?thesis
    unfolding t using l by blast
qed

end
